theory Spec2Isabelle
  imports Main "HOL-Library.Signed_Division" "HOL-Library.Multiset"
begin

section \<open>Connected-component labelling (cupyx.scipy.ndimage.measurements)\<close>

text \<open>
  A shallow embedding of \<^verbatim>\<open>label\<close>, \<^verbatim>\<open>_generate_binary_structure\<close>, \<^verbatim>\<open>_label\<close> and the
  five element-wise kernels of \<^verbatim>\<open>src/cupyx/scipy/ndimage/measurements.py\<close>.

  Conventions of the embedding.
  \<^item> A leading underscore of a Python name is written \<open>u_\<close>: \<^verbatim>\<open>_label\<close> is \<open>u_label\<close>.
  \<^item> An n-dimensional array is its shape together with its cells in C (row-major) order.
    The kernels address arrays by this flat index only.
  \<^item> The kernels compute on \<^verbatim>\<open>int32\<close>. They are modelled on \<open>int\<close>; every intermediate
    value of the kernels is bounded by twice the number of cells, so the model is exact
    for every array with at most \<open>2^30\<close> cells.
  \<^item> A cell value matters only through the test \<^verbatim>\<open>x == 0\<close>; cells are modelled as \<open>int\<close>.
  \<^item> Each access of a kernel thread to the shared buffer \<^verbatim>\<open>y\<close> is one atomic step, and
    the threads of one kernel launch interleave their steps in any order (a schedule);
    a kernel launch ends when every thread has finished, before the next launch starts.
\<close>

subsection \<open>Arrays, arguments and errors\<close>

datatype dtype = Int32 | Complex64 | Complex128 | Other_dtype

text \<open>\<^verbatim>\<open>dtype.char\<close>: \<^verbatim>\<open>'F'\<close> is complex64 and \<^verbatim>\<open>'D'\<close> is complex128.\<close>

fun dtype_char :: "dtype \<Rightarrow> char" where
  "dtype_char Int32 = CHR ''i''"
| "dtype_char Complex64 = CHR ''F''"
| "dtype_char Complex128 = CHR ''D''"
| "dtype_char Other_dtype = CHR ''?''"

record ndarray =
  arr_dtype :: dtype
  arr_shape :: "nat list"
  arr_data :: "int list"

definition arr_ndim :: "ndarray \<Rightarrow> nat" where
  "arr_ndim a = length (arr_shape a)"

definition arr_size :: "ndarray \<Rightarrow> nat" where
  "arr_size a = prod_list (arr_shape a)"

text \<open>An array is well formed when it has one cell per index of its shape.\<close>

definition wf_array :: "ndarray \<Rightarrow> bool" where
  "wf_array a = (length (arr_data a) = arr_size a)"

text \<open>The \<^verbatim>\<open>output\<close> argument: \<^verbatim>\<open>None\<close>, a dtype, or an array of the caller.\<close>

datatype out_arg = Out_None | Out_dtype dtype | Out_array ndarray

text \<open>
  The exceptions of \<^verbatim>\<open>label\<close>: \<^verbatim>\<open>TypeError\<close> (the spec's TypeMismatch),
  \<^verbatim>\<open>RuntimeError\<close> (RankMismatch) and \<^verbatim>\<open>ValueError\<close> (ShapeMismatch).
\<close>

datatype error = TypeError | RuntimeError | ValueError

text \<open>
  What \<^verbatim>\<open>label\<close> returns: \<^verbatim>\<open>maxlabel\<close> alone when the caller gave the output array
  (\<open>Ret_count\<close>, together with the cells now in the caller's array), else the pair
  \<^verbatim>\<open>(output, maxlabel)\<close>.
\<close>

datatype retval = Ret_count "int list" int | Ret_pair "int list" int

fun ret_labels :: "retval \<Rightarrow> int list" where
  "ret_labels (Ret_count ys m) = ys"
| "ret_labels (Ret_pair ys m) = ys"

fun ret_maxlabel :: "retval \<Rightarrow> int" where
  "ret_maxlabel (Ret_count ys m) = m"
| "ret_maxlabel (Ret_pair ys m) = m"

subsection \<open>Coordinates in row-major order\<close>

text \<open>All index tuples of a shape, in C order (\<^verbatim>\<open>numpy.indices\<close>, \<^verbatim>\<open>numpy.where\<close>).\<close>

fun all_coords :: "nat list \<Rightarrow> int list list" where
  "all_coords [] = [[]]"
| "all_coords (s # ss) = concat (map (\<lambda>i. map ((#) (int i)) (all_coords ss)) [0..<s])"

subsection \<open>\<^verbatim>\<open>_generate_binary_structure\<close>\<close>

text \<open>
  \<^verbatim>\<open>numpy.fabs(numpy.indices([3] * rank) - 1)\<close> summed over the axes and compared with the
  connectivity; for rank 0 the scalar \<^verbatim>\<open>True\<close>. The values are 0 and 1 (True).
\<close>

definition u_generate_binary_structure :: "nat \<Rightarrow> int \<Rightarrow> ndarray" where
  "u_generate_binary_structure rank connectivity =
     (let connectivity = (if connectivity < 1 then 1 else connectivity) in
      if rank < 1 then \<lparr>arr_dtype = Other_dtype, arr_shape = [], arr_data = [1]\<rparr>
      else \<lparr>arr_dtype = Other_dtype, arr_shape = replicate rank 3,
            arr_data = map (\<lambda>c. if sum_list (map (\<lambda>a. \<bar>a - 1\<bar>) c) \<le> connectivity then 1 else 0)
                           (all_coords (replicate rank 3))\<rparr>)"

subsection \<open>The offset compiler of \<^verbatim>\<open>_label\<close>\<close>

text \<open>
  \<^verbatim>\<open>elems = numpy.where(structure != 0)\<close>: the index tuples of the active structure cells,
  in row-major order.
\<close>

definition np_where :: "nat list \<Rightarrow> bool list \<Rightarrow> int list list" where
  "np_where shp bs = map fst (filter snd (zip (all_coords shp) bs))"

text \<open>\<^verbatim>\<open>vecs[dm] = elems[dm] - 1\<close>, kept here as one vector per active cell.\<close>

definition struct_vecs :: "nat list \<Rightarrow> bool list \<Rightarrow> int list list" where
  "struct_vecs shp bs = map (map (\<lambda>c. c - 1)) (np_where shp bs)"

text \<open>
  \<^verbatim>\<open>offset = vecs[0]; for dm in range(1, ndim): offset = offset * 3 + vecs[dm]\<close>,
  for one active cell. \<^verbatim>\<open>vecs[0]\<close> needs a first axis: \<^verbatim>\<open>_label\<close> is called with
  \<^verbatim>\<open>ndim >= 1\<close> only.
\<close>

definition enc :: "int list \<Rightarrow> int" where
  "enc v = foldl (\<lambda>acc c. acc * 3 + c) (hd v) (tl v)"

text \<open>\<^verbatim>\<open>indxs = numpy.where(offset < 0)[0]\<close> and the rows \<^verbatim>\<open>dirs\<close> it selects.\<close>

definition compile_dirs :: "nat list \<Rightarrow> bool list \<Rightarrow> int list list" where
  "compile_dirs shp bs = filter (\<lambda>v. enc v < 0) (struct_vecs shp bs)"


text \<open>
  The structure is centrosymmetric when the negation of every active offset is active.
\<close>

definition centrosymmetric :: "nat list \<Rightarrow> bool list \<Rightarrow> bool" where
  "centrosymmetric shp bs =
     (\<forall>v\<in>set (struct_vecs shp bs). map uminus v \<in> set (struct_vecs shp bs))"

text \<open>A vector of \<open>r\<close> entries, each \<open>-1\<close>, \<open>0\<close> or \<open>1\<close>.\<close>

definition ternary :: "nat \<Rightarrow> int list \<Rightarrow> bool" where
  "ternary r v = (length v = r \<and> (\<forall>c\<in>set v. c = -1 \<or> c = 0 \<or> c = 1))"

subsection \<open>\<^verbatim>\<open>_kernel_init\<close>\<close>

text \<open>\<^verbatim>\<open>if (x == 0) { y = -1; } else { y = i; }\<close> for every cell \<open>i\<close>.\<close>

definition u_kernel_init :: "int list \<Rightarrow> int list" where
  "u_kernel_init x = map (\<lambda>i. if x ! i = 0 then - 1 else int i) [0..<length x]"

subsection \<open>Schedules\<close>

text \<open>
  A schedule names, step by step, the thread that takes the next atomic step. A step of a
  finished thread, or of a thread that does not exist, changes nothing. A launch that
  has not finished every thread when its schedule ends has no result (\<open>None\<close>).
\<close>

record schedule =
  sch_connect :: "nat list"
  sch_count :: "nat list"
  sch_labels :: "nat list"

subsection \<open>\<^verbatim>\<open>_kernel_connect\<close>\<close>

text \<open>
  The neighbour of cell \<open>i\<close> in direction \<open>dr\<close>: the loop
  \<^verbatim>\<open>for (int dm = ndim-1; dm >= 0; dm--)\<close>, whose counter is \<open>dm + 1\<close> here, with the
  truncating \<^verbatim>\<open>%\<close> and \<^verbatim>\<open>/\<close> of C. The \<^verbatim>\<open>break\<close> with \<^verbatim>\<open>k = -1\<close> returns \<open>-1\<close>.
\<close>

fun neighbor_loop :: "int list \<Rightarrow> int list \<Rightarrow> nat \<Rightarrow> nat \<Rightarrow> nat \<Rightarrow> int \<Rightarrow> int \<Rightarrow> int \<Rightarrow> int" where
  "neighbor_loop shape dirs ndim dr 0 rest stride k = k"
| "neighbor_loop shape dirs ndim dr (Suc dm) rest stride k =
     (let pos = rest smod (shape ! dm) + dirs ! (dm + dr * ndim) in
      if pos < 0 \<or> pos \<ge> shape ! dm then - 1
      else neighbor_loop shape dirs ndim dr dm
             (rest sdiv (shape ! dm)) (stride * (shape ! dm)) (k + pos * stride))"

definition neighbor :: "int list \<Rightarrow> int list \<Rightarrow> nat \<Rightarrow> nat \<Rightarrow> nat \<Rightarrow> int" where
  "neighbor shape dirs ndim dr i = neighbor_loop shape dirs ndim dr ndim (int i) 1 0"

text \<open>
  The places of a thread in the kernel body, one per access to \<^verbatim>\<open>y\<close>:
  \<^item> \<open>C_start\<close>: \<^verbatim>\<open>if (y[i] < 0) continue;\<close>
  \<^item> \<open>C_head\<close>: the head of the loop over \<open>dr\<close>, the neighbour \<open>k\<close> and \<^verbatim>\<open>if (y[k] < 0) continue;\<close>
  \<^item> \<open>C_find_j\<close>, \<open>C_step_j\<close>: the test and the body of \<^verbatim>\<open>while (j != y[j]) { j = y[j]; }\<close>
  \<^item> \<open>C_find_k\<close>, \<open>C_step_k\<close>: the same for \<open>k\<close>, followed by the comparison of \<open>j\<close> and \<open>k\<close>
  \<^item> \<open>C_cas_k\<close>: \<^verbatim>\<open>atomicCAS(&y[k], k, j)\<close>; \<open>C_cas_j\<close>: \<^verbatim>\<open>atomicCAS(&y[j], j, k)\<close>
  \<^item> \<open>C_done\<close>: the thread has left the body.
\<close>

datatype cpc = C_start | C_head | C_find_j | C_step_j | C_find_k | C_step_k
  | C_cas_k | C_cas_j | C_done

record cthread =
  t_pc :: cpc
  t_dr :: nat
  t_j :: int
  t_k :: int

record cstate =
  c_y :: "int list"
  c_threads :: "cthread list"

definition next_dir :: "cthread \<Rightarrow> cthread" where
  "next_dir t = t\<lparr>t_pc := C_head, t_dr := t_dr t + 1\<rparr>"

fun connect_thread_step ::
  "int list \<Rightarrow> int list \<Rightarrow> nat \<Rightarrow> nat \<Rightarrow> nat \<Rightarrow> int list \<Rightarrow> cthread \<Rightarrow> int list \<times> cthread" where
  "connect_thread_step shape dirs ndirs ndim i y t =
     (case t_pc t of
        C_start \<Rightarrow>
          if y ! i < 0 then (y, t\<lparr>t_pc := C_done\<rparr>)
          else (y, t\<lparr>t_pc := C_head, t_dr := 0\<rparr>)
      | C_head \<Rightarrow>
          if \<not> t_dr t < ndirs then (y, t\<lparr>t_pc := C_done\<rparr>)
          else
            let k = neighbor shape dirs ndim (t_dr t) i in
            if k < 0 then (y, next_dir t)
            else if y ! nat k < 0 then (y, next_dir t)
            else (y, t\<lparr>t_pc := C_find_j, t_j := int i, t_k := k\<rparr>)
      | C_find_j \<Rightarrow>
          if t_j t \<noteq> y ! nat (t_j t) then (y, t\<lparr>t_pc := C_step_j\<rparr>)
          else (y, t\<lparr>t_pc := C_find_k\<rparr>)
      | C_step_j \<Rightarrow> (y, t\<lparr>t_pc := C_find_j, t_j := y ! nat (t_j t)\<rparr>)
      | C_find_k \<Rightarrow>
          if t_k t \<noteq> y ! nat (t_k t) then (y, t\<lparr>t_pc := C_step_k\<rparr>)
          else if t_j t = t_k t then (y, next_dir t)
          else if t_j t < t_k t then (y, t\<lparr>t_pc := C_cas_k\<rparr>)
          else (y, t\<lparr>t_pc := C_cas_j\<rparr>)
      | C_step_k \<Rightarrow> (y, t\<lparr>t_pc := C_find_k, t_k := y ! nat (t_k t)\<rparr>)
      | C_cas_k \<Rightarrow>
          let old = y ! nat (t_k t) in
          if old = t_k t then (y[nat (t_k t) := t_j t], next_dir t)
          else (y, t\<lparr>t_pc := C_find_j, t_k := old\<rparr>)
      | C_cas_j \<Rightarrow>
          let old = y ! nat (t_j t) in
          if old = t_j t then (y[nat (t_j t) := t_k t], next_dir t)
          else (y, t\<lparr>t_pc := C_find_j, t_j := old\<rparr>)
      | C_done \<Rightarrow> (y, t))"

definition connect_step :: "int list \<Rightarrow> int list \<Rightarrow> nat \<Rightarrow> nat \<Rightarrow> nat \<Rightarrow> cstate \<Rightarrow> cstate" where
  "connect_step shape dirs ndirs ndim i s =
     (if i < length (c_threads s) then
        (case connect_thread_step shape dirs ndirs ndim i (c_y s) (c_threads s ! i) of
           (y', t') \<Rightarrow> \<lparr>c_y = y', c_threads = (c_threads s)[i := t']\<rparr>)
      else s)"

definition connect_init :: "int list \<Rightarrow> cstate" where
  "connect_init y =
     \<lparr>c_y = y, c_threads = replicate (length y) \<lparr>t_pc = C_start, t_dr = 0, t_j = 0, t_k = 0\<rparr>\<rparr>"

definition connect_done :: "cstate \<Rightarrow> bool" where
  "connect_done s = list_all (\<lambda>t. t_pc t = C_done) (c_threads s)"

definition connect_run :: "int list \<Rightarrow> int list \<Rightarrow> nat \<Rightarrow> nat \<Rightarrow> nat list \<Rightarrow> cstate \<Rightarrow> cstate" where
  "connect_run shape dirs ndirs ndim sched s = fold (connect_step shape dirs ndirs ndim) sched s"

text \<open>The launch \<^verbatim>\<open>_kernel_connect()(y_shape, dirs, ndirs, x.ndim, y, size=y.size)\<close>.\<close>

definition u_kernel_connect ::
  "nat list \<Rightarrow> int list \<Rightarrow> int list \<Rightarrow> nat \<Rightarrow> nat \<Rightarrow> int list \<Rightarrow> int list option" where
  "u_kernel_connect sched shape dirs ndirs ndim y =
     (let s = connect_run shape dirs ndirs ndim sched (connect_init y) in
      if connect_done s then Some (c_y s) else None)"

subsection \<open>\<^verbatim>\<open>_kernel_count\<close>\<close>

text \<open>
  \<^item> \<open>K_start\<close>: \<^verbatim>\<open>if (y[i] < 0) continue; int j = i;\<close>
  \<^item> \<open>K_find\<close>, \<open>K_step\<close>: the test and the body of \<^verbatim>\<open>while (j != y[j]) { j = y[j]; }\<close>
  \<^item> \<open>K_write\<close>: \<^verbatim>\<open>if (j != i) y[i] = j; else atomicAdd(&count[0], 1);\<close>
\<close>

datatype kpc = K_start | K_find | K_step | K_write | K_done

record kthread =
  k_pc :: kpc
  k_j :: int

record kstate =
  k_y :: "int list"
  k_count :: int
  k_threads :: "kthread list"

fun count_thread_step :: "nat \<Rightarrow> int list \<Rightarrow> int \<Rightarrow> kthread \<Rightarrow> int list \<times> int \<times> kthread" where
  "count_thread_step i y c t =
     (case k_pc t of
        K_start \<Rightarrow>
          if y ! i < 0 then (y, c, t\<lparr>k_pc := K_done\<rparr>)
          else (y, c, \<lparr>k_pc = K_find, k_j = int i\<rparr>)
      | K_find \<Rightarrow>
          if k_j t \<noteq> y ! nat (k_j t) then (y, c, t\<lparr>k_pc := K_step\<rparr>)
          else (y, c, t\<lparr>k_pc := K_write\<rparr>)
      | K_step \<Rightarrow> (y, c, t\<lparr>k_pc := K_find, k_j := y ! nat (k_j t)\<rparr>)
      | K_write \<Rightarrow>
          if k_j t \<noteq> int i then (y[i := k_j t], c, t\<lparr>k_pc := K_done\<rparr>)
          else (y, c + 1, t\<lparr>k_pc := K_done\<rparr>)
      | K_done \<Rightarrow> (y, c, t))"

definition count_step :: "nat \<Rightarrow> kstate \<Rightarrow> kstate" where
  "count_step i s =
     (if i < length (k_threads s) then
        (case count_thread_step i (k_y s) (k_count s) (k_threads s ! i) of
           (y', c', t') \<Rightarrow> \<lparr>k_y = y', k_count = c', k_threads = (k_threads s)[i := t']\<rparr>)
      else s)"

definition count_init :: "int list \<Rightarrow> kstate" where
  "count_init y =
     \<lparr>k_y = y, k_count = 0, k_threads = replicate (length y) \<lparr>k_pc = K_start, k_j = 0\<rparr>\<rparr>"

definition count_done :: "kstate \<Rightarrow> bool" where
  "count_done s = list_all (\<lambda>t. k_pc t = K_done) (k_threads s)"

text \<open>The launch \<^verbatim>\<open>_kernel_count()(y, count, size=y.size)\<close>: the new \<^verbatim>\<open>y\<close> and \<^verbatim>\<open>count[0]\<close>.\<close>

definition u_kernel_count :: "nat list \<Rightarrow> int list \<Rightarrow> (int list \<times> int) option" where
  "u_kernel_count sched y =
     (let s = fold count_step sched (count_init y) in
      if count_done s then Some (k_y s, k_count s) else None)"

subsection \<open>\<^verbatim>\<open>_kernel_labels\<close>\<close>

text \<open>
  \<^item> \<open>L_start\<close>: \<^verbatim>\<open>if (y[i] != i) continue;\<close>
  \<^item> \<open>L_add\<close>: \<^verbatim>\<open>int j = atomicAdd(&count[1], 1);\<close>
  \<^item> \<open>L_write\<close>: \<^verbatim>\<open>labels[j] = i;\<close>
  The array \<^verbatim>\<open>labels = cupy.empty(maxlabel)\<close> starts with arbitrary cells, here zeros.
\<close>

datatype lpc = L_start | L_add | L_write | L_done

record lthread =
  l_pc :: lpc
  l_j :: int

record lstate =
  l_labels :: "int list"
  l_count :: int
  l_threads :: "lthread list"

fun labels_thread_step :: "int list \<Rightarrow> nat \<Rightarrow> int list \<Rightarrow> int \<Rightarrow> lthread \<Rightarrow> int list \<times> int \<times> lthread" where
  "labels_thread_step y i labels c t =
     (case l_pc t of
        L_start \<Rightarrow>
          if y ! i \<noteq> int i then (labels, c, t\<lparr>l_pc := L_done\<rparr>)
          else (labels, c, t\<lparr>l_pc := L_add\<rparr>)
      | L_add \<Rightarrow> (labels, c + 1, \<lparr>l_pc = L_write, l_j = c\<rparr>)
      | L_write \<Rightarrow> (labels[nat (l_j t) := int i], c, t\<lparr>l_pc := L_done\<rparr>)
      | L_done \<Rightarrow> (labels, c, t))"

definition labels_step :: "int list \<Rightarrow> nat \<Rightarrow> lstate \<Rightarrow> lstate" where
  "labels_step y i s =
     (if i < length (l_threads s) then
        (case labels_thread_step y i (l_labels s) (l_count s) (l_threads s ! i) of
           (ls', c', t') \<Rightarrow> \<lparr>l_labels = ls', l_count = c', l_threads = (l_threads s)[i := t']\<rparr>)
      else s)"

definition labels_init :: "int list \<Rightarrow> int \<Rightarrow> lstate" where
  "labels_init y maxlabel =
     \<lparr>l_labels = replicate (nat maxlabel) 0, l_count = 0,
      l_threads = replicate (length y) \<lparr>l_pc = L_start, l_j = 0\<rparr>\<rparr>"

definition labels_done :: "lstate \<Rightarrow> bool" where
  "labels_done s = list_all (\<lambda>t. l_pc t = L_done) (l_threads s)"

text \<open>The launch \<^verbatim>\<open>_kernel_labels()(y, count, labels, size=y.size)\<close>: the filled \<^verbatim>\<open>labels\<close>.\<close>

definition u_kernel_labels :: "nat list \<Rightarrow> int list \<Rightarrow> int \<Rightarrow> int list option" where
  "u_kernel_labels sched y maxlabel =
     (let s = fold (labels_step y) sched (labels_init y maxlabel) in
      if labels_done s then Some (l_labels s) else None)"

subsection \<open>\<^verbatim>\<open>_kernel_finalize\<close>\<close>

text \<open>
  The binary search of one cell. In the source \<open>j\<close> is \<^verbatim>\<open>(j_min + j_max) / 2\<close> whenever the
  loop test is reached (it is set so before the loop and at the end of the loop body), so
  the loop is a function of \<open>j_min\<close> and \<open>j_max\<close>; the division truncates, as in C.
  \<^verbatim>\<open>
  int j = (j_min + j_max) / 2;
  while (j_min < j_max) {
      if (yi == labels[j]) break;
      if (yi < labels[j]) j_max = j - 1;
      else j_min = j + 1;
      j = (j_min + j_max) / 2;
  }
  \<close>
\<close>

function bsearch :: "int list \<Rightarrow> int \<Rightarrow> int \<Rightarrow> int \<Rightarrow> int" where
  "bsearch labels yi j_min j_max =
     (let j = (j_min + j_max) sdiv 2 in
      if j_min < j_max then
        if yi = labels ! nat j then j
        else if yi < labels ! nat j then bsearch labels yi j_min (j - 1)
        else bsearch labels yi (j + 1) j_max
      else j)"
  by pat_completeness auto
termination
  by (relation "measure (\<lambda>(labels, yi, j_min, j_max). nat (j_max - j_min))")
     (auto simp: signed_divide_int_def sgn_if abs_if)

declare bsearch.simps [simp del]

text \<open>
  One cell: \<^verbatim>\<open>if (y[i] < 0) { y[i] = 0; continue; }\<close>, else the search and
  \<^verbatim>\<open>y[i] = j + 1\<close>. A thread reads and writes its own cell of \<^verbatim>\<open>y\<close> only, so the launch
  is a map over the cells.
\<close>

definition finalize_cell :: "int \<Rightarrow> int list \<Rightarrow> int \<Rightarrow> int" where
  "finalize_cell maxlabel labels yi =
     (if yi < 0 then 0 else bsearch labels yi 0 (maxlabel - 1) + 1)"

definition u_kernel_finalize :: "int \<Rightarrow> int list \<Rightarrow> int list \<Rightarrow> int list" where
  "u_kernel_finalize maxlabel labels y = map (finalize_cell maxlabel labels) y"

subsection \<open>\<^verbatim>\<open>_label\<close>\<close>

text \<open>
  \<open>x\<close> is the cells of the input and \<open>x_shape\<close> its shape, which is also the shape of \<open>y\<close>;
  the structure has the rank of the input (\<^verbatim>\<open>label\<close> has checked it). \<^verbatim>\<open>dirs\<close> reaches
  the kernel as a flat \<^verbatim>\<open>int32\<close> array, row after row. The result is the final \<^verbatim>\<open>y\<close>
  and \<^verbatim>\<open>maxlabel\<close>.
\<close>

definition u_label :: "schedule \<Rightarrow> int list \<Rightarrow> nat list \<Rightarrow> ndarray \<Rightarrow> (int list \<times> int) option" where
  "u_label sch x x_shape structure =
     (let dirs = compile_dirs (arr_shape structure) (map (\<lambda>v. v \<noteq> 0) (arr_data structure));
          ndirs = length dirs;
          ndim = length x_shape;
          y_shape = map int x_shape;
          y = u_kernel_init x
      in case u_kernel_connect (sch_connect sch) y_shape (concat dirs) ndirs ndim y of
           None \<Rightarrow> None
         | Some y \<Rightarrow>
      (case u_kernel_count (sch_count sch) y of
           None \<Rightarrow> None
         | Some (y, maxlabel) \<Rightarrow>
      (case u_kernel_labels (sch_labels sch) y maxlabel of
           None \<Rightarrow> None
         | Some labels \<Rightarrow>
             Some (u_kernel_finalize maxlabel (sort labels) y, maxlabel))))"

subsection \<open>\<^verbatim>\<open>label\<close>\<close>

text \<open>
  \<open>astype d\<close> is numpy's conversion of an \<^verbatim>\<open>int32\<close> value to the dtype \<open>d\<close> of the output
  array (\<^verbatim>\<open>output[...] = y[...]\<close>); it is a parameter, numpy being outside this code.
  An \<^verbatim>\<open>int32\<close> output holds \<open>y\<close> itself. The input is a \<^verbatim>\<open>cupy.ndarray\<close> by its type
  here, so the first \<^verbatim>\<open>isinstance\<close> test passes.
\<close>

definition to_dtype :: "(dtype \<Rightarrow> int \<Rightarrow> int) \<Rightarrow> dtype \<Rightarrow> int \<Rightarrow> int" where
  "to_dtype astype d v = (if d = Int32 then v else astype d v)"

definition label ::
  "(dtype \<Rightarrow> int \<Rightarrow> int) \<Rightarrow> schedule \<Rightarrow> ndarray \<Rightarrow> ndarray option \<Rightarrow> out_arg
     \<Rightarrow> (error + retval) option" where
  "label astype sch input structure output =
     (if dtype_char (arr_dtype input) \<in> set ''FD'' then Some (Inl TypeError)
      else
        let structure = (case structure of
                           None \<Rightarrow> u_generate_binary_structure (arr_ndim input) 1
                         | Some s \<Rightarrow> s);
            structure = structure\<lparr>arr_data := map (\<lambda>v. if v \<noteq> 0 then 1 else 0) (arr_data structure)\<rparr>
        in
        if arr_ndim structure \<noteq> arr_ndim input then Some (Inl RuntimeError)
        else if \<exists>i\<in>set (arr_shape structure). i \<noteq> 3 then Some (Inl ValueError)
        else
          (case (case output of
                   Out_array a \<Rightarrow>
                     if arr_shape a \<noteq> arr_shape input then Inl ValueError
                     else Inr (True, arr_dtype a)
                 | Out_None \<Rightarrow> Inr (False, Int32)
                 | Out_dtype d \<Rightarrow> Inr (False, d)) of
             Inl e \<Rightarrow> Some (Inl e)
           | Inr (caller_provided_output, odtype) \<Rightarrow>
               (case (if arr_size input = 0 then Some ([], 0)
                      else if arr_ndim input = 0 then
                        (let maxlabel = (if hd (arr_data input) = 0 then 0 else 1)
                         in Some ([to_dtype astype odtype maxlabel], maxlabel))
                      else
                        (case u_label sch (arr_data input) (arr_shape input) structure of
                           None \<Rightarrow> None
                         | Some (y, maxlabel) \<Rightarrow>
                             Some (if odtype \<noteq> Int32 then map (astype odtype) y else y, maxlabel))) of
                  None \<Rightarrow> None
                | Some (out, maxlabel) \<Rightarrow>
                    Some (Inr (if caller_provided_output then Ret_count out maxlabel
                               else Ret_pair out maxlabel)))))"

subsection \<open>Invariants of the connect kernel\<close>

text \<open>
  The launch parameters fit the field: \<open>shape\<close> has \<open>ndim\<close> positive axes whose product is
  the number \<open>n\<close> of cells.
\<close>

definition grid_ok :: "int list \<Rightarrow> nat \<Rightarrow> nat \<Rightarrow> bool" where
  "grid_ok shape ndim n = (length shape = ndim \<and> (\<forall>s\<in>set shape. 0 < s) \<and> prod_list shape = int n)"

text \<open>Cell \<open>a\<close> is a cell of the field and is not zero.\<close>

definition active :: "int list \<Rightarrow> int \<Rightarrow> bool" where
  "active x a = (0 \<le> a \<and> a < int (length x) \<and> x ! nat a \<noteq> 0)"

text \<open>The parent pointers of the active cells in the buffer \<open>y\<close>.\<close>

definition par :: "int list \<Rightarrow> (int \<times> int) set" where
  "par y = {(a, b). 0 \<le> a \<and> a < int (length y) \<and> b = y ! nat a \<and> 0 \<le> b}"

text \<open>
  The buffer invariant: an inactive cell holds \<open>-1\<close>, an active cell points to an active
  cell of no larger index.
\<close>

definition forest :: "int list \<Rightarrow> int list \<Rightarrow> bool" where
  "forest x y = (length y = length x \<and>
     (\<forall>i<length x. if x ! i = 0 then y ! i = - 1
                    else 0 \<le> y ! i \<and> y ! i \<le> int i \<and> x ! nat (y ! i) \<noteq> 0))"

text \<open>Two cells have a common ancestor.\<close>

definition sametree :: "int list \<Rightarrow> int \<Rightarrow> int \<Rightarrow> bool" where
  "sametree y a b = (\<exists>c. (a, c) \<in> (par y)\<^sup>* \<and> (b, c) \<in> (par y)\<^sup>*)"

text \<open>
  The edges the connect kernel visits: from an active cell to its active neighbour in
  one of the \<open>ndirs\<close> directions. \<open>conn\<close> is the connectivity they generate.
\<close>

definition edges :: "int list \<Rightarrow> int list \<Rightarrow> nat \<Rightarrow> nat \<Rightarrow> int list \<Rightarrow> (int \<times> int) set" where
  "edges shape dirs ndirs ndim x =
     {(a, b). active x a \<and> active x b \<and> (\<exists>dr<ndirs. b = neighbor shape dirs ndim dr (nat a))}"

definition conn :: "int list \<Rightarrow> int list \<Rightarrow> nat \<Rightarrow> nat \<Rightarrow> int list \<Rightarrow> (int \<times> int) set" where
  "conn shape dirs ndirs ndim x =
     (edges shape dirs ndirs ndim x \<union> (edges shape dirs ndirs ndim x)\<inverse>)\<^sup>*"

text \<open>
  The invariant of a connect thread. \<open>link_ok\<close>: direction \<open>dr\<close> of cell \<open>i\<close> is settled.
  \<open>in_loop\<close>: inside the \<^verbatim>\<open>while (1)\<close> loop, \<open>j\<close> is an ancestor of \<open>i\<close> and \<open>k\<close> one of the
  neighbour.
\<close>

definition link_ok :: "int list \<Rightarrow> int list \<Rightarrow> nat \<Rightarrow> int list \<Rightarrow> int list \<Rightarrow> nat \<Rightarrow> nat \<Rightarrow> bool" where
  "link_ok shape dirs ndim x y i dr =
     (active x (neighbor shape dirs ndim dr i)
        \<longrightarrow> sametree y (int i) (neighbor shape dirs ndim dr i))"

definition in_loop ::
  "int list \<Rightarrow> int list \<Rightarrow> nat \<Rightarrow> nat \<Rightarrow> int list \<Rightarrow> nat \<Rightarrow> int list \<Rightarrow> cthread \<Rightarrow> bool" where
  "in_loop shape dirs ndirs ndim x i y t =
     (x ! i \<noteq> 0 \<and> t_dr t < ndirs
      \<and> (\<forall>dr<t_dr t. link_ok shape dirs ndim x y i dr)
      \<and> active x (neighbor shape dirs ndim (t_dr t) i)
      \<and> (int i, t_j t) \<in> (par y)\<^sup>*
      \<and> (neighbor shape dirs ndim (t_dr t) i, t_k t) \<in> (par y)\<^sup>*)"

definition thread_inv ::
  "int list \<Rightarrow> int list \<Rightarrow> nat \<Rightarrow> nat \<Rightarrow> int list \<Rightarrow> nat \<Rightarrow> int list \<Rightarrow> cthread \<Rightarrow> bool" where
  "thread_inv shape dirs ndirs ndim x i y t =
     (case t_pc t of
        C_start \<Rightarrow> True
      | C_head \<Rightarrow> x ! i \<noteq> 0 \<and> t_dr t \<le> ndirs
                  \<and> (\<forall>dr<t_dr t. link_ok shape dirs ndim x y i dr)
      | C_find_j \<Rightarrow> in_loop shape dirs ndirs ndim x i y t
      | C_step_j \<Rightarrow> in_loop shape dirs ndirs ndim x i y t \<and> y ! nat (t_j t) \<noteq> t_j t
      | C_find_k \<Rightarrow> in_loop shape dirs ndirs ndim x i y t
      | C_step_k \<Rightarrow> in_loop shape dirs ndirs ndim x i y t \<and> y ! nat (t_k t) \<noteq> t_k t
      | C_cas_k \<Rightarrow> in_loop shape dirs ndirs ndim x i y t \<and> t_j t < t_k t
      | C_cas_j \<Rightarrow> in_loop shape dirs ndirs ndim x i y t \<and> t_k t < t_j t
      | C_done \<Rightarrow> x ! i \<noteq> 0 \<longrightarrow> (\<forall>dr<ndirs. link_ok shape dirs ndim x y i dr))"

text \<open>The only change of the buffer in the connect phase: a root gets a parent.\<close>

definition grow :: "int list \<Rightarrow> int list \<Rightarrow> bool" where
  "grow y y' = (y' = y \<or> (\<exists>r p. r < length y \<and> y ! r = int r \<and> 0 \<le> p \<and> y' = y[r := p]))"

text \<open>The invariant of the connect launch.\<close>

definition cinv :: "int list \<Rightarrow> int list \<Rightarrow> nat \<Rightarrow> nat \<Rightarrow> int list \<Rightarrow> cstate \<Rightarrow> bool" where
  "cinv shape dirs ndirs ndim x s =
     (forest x (c_y s) \<and> length (c_threads s) = length x
      \<and> par (c_y s) \<subseteq> conn shape dirs ndirs ndim x
      \<and> (\<forall>i<length x. thread_inv shape dirs ndirs ndim x i (c_y s) (c_threads s ! i)))"

text \<open>
  The number of steps a connect thread can still take is bounded by \<open>tmeasure\<close>, which every
  step of the thread lowers.
\<close>

fun pc_rank :: "cpc \<Rightarrow> nat" where
  "pc_rank C_find_j = 5"
| "pc_rank C_step_j = 4"
| "pc_rank C_find_k = 3"
| "pc_rank C_step_k = 2"
| "pc_rank C_cas_k = 1"
| "pc_rank C_cas_j = 0"
| "pc_rank _ = 0"

definition tmeasure :: "nat \<Rightarrow> nat \<Rightarrow> cthread \<Rightarrow> nat" where
  "tmeasure n ndirs t =
     (case t_pc t of
        C_done \<Rightarrow> 0
      | C_start \<Rightarrow> (ndirs + 2) * (16 * n + 16)
      | C_head \<Rightarrow> (ndirs - t_dr t + 1) * (16 * n + 16)
      | _ \<Rightarrow> (ndirs - t_dr t) * (16 * n + 16) + 8 * (nat (t_j t) + nat (t_k t))
               + pc_rank (t_pc t) + 1)"

text \<open>A schedule that gives every one of \<open>n\<close> threads at least \<open>b\<close> steps.\<close>

definition fair :: "nat \<Rightarrow> nat \<Rightarrow> nat list \<Rightarrow> bool" where
  "fair n b sched = (\<forall>i<n. b \<le> count_list sched i)"

text \<open>The number of steps within which a connect thread finishes.\<close>

definition connect_bound :: "nat \<Rightarrow> nat \<Rightarrow> nat" where
  "connect_bound n ndirs = (ndirs + 2) * (16 * n + 16)"

text \<open>\<open>r\<close> is the root of the tree of \<open>a\<close>.\<close>

definition is_root_of :: "int list \<Rightarrow> int \<Rightarrow> int \<Rightarrow> bool" where
  "is_root_of y a r = ((a, r) \<in> (par y)\<^sup>* \<and> y ! nat r = r)"

text \<open>
  The least cell of the connected component of \<open>a\<close>, and the buffer that holds, for every
  active cell, the least cell of its component.
\<close>

definition comp_min :: "int list \<Rightarrow> int list \<Rightarrow> nat \<Rightarrow> nat \<Rightarrow> int list \<Rightarrow> int \<Rightarrow> int" where
  "comp_min shape dirs ndirs ndim x a =
     Min {b. (a, b) \<in> conn shape dirs ndirs ndim x \<and> active x b}"

definition canon :: "int list \<Rightarrow> int list \<Rightarrow> nat \<Rightarrow> nat \<Rightarrow> int list \<Rightarrow> int list" where
  "canon shape dirs ndirs ndim x =
     map (\<lambda>i. if x ! i = 0 then - 1 else comp_min shape dirs ndirs ndim x (int i)) [0..<length x]"

subsection \<open>Invariants of the count kernel and of the labels kernel\<close>

text \<open>
  The invariant of a count thread and of the count launch; \<open>y0\<close> is the buffer the launch
  starts from. The roots never change, every parent pointer stays inside the tree of
  \<open>y0\<close>, and \<^verbatim>\<open>count[0]\<close> counts the finished threads of root cells.
\<close>

definition kthread_inv :: "int list \<Rightarrow> int list \<Rightarrow> nat \<Rightarrow> int list \<Rightarrow> kthread \<Rightarrow> bool" where
  "kthread_inv x y0 i y t =
     (case k_pc t of
        K_start \<Rightarrow> True
      | K_find \<Rightarrow> x ! i \<noteq> 0 \<and> (int i, k_j t) \<in> (par y0)\<^sup>*
      | K_step \<Rightarrow> x ! i \<noteq> 0 \<and> (int i, k_j t) \<in> (par y0)\<^sup>* \<and> y0 ! nat (k_j t) \<noteq> k_j t
      | K_write \<Rightarrow> x ! i \<noteq> 0 \<and> (int i, k_j t) \<in> (par y0)\<^sup>* \<and> y0 ! nat (k_j t) = k_j t
      | K_done \<Rightarrow> x ! i \<noteq> 0 \<longrightarrow> y0 ! nat (y ! i) = y ! i)"

definition kinv :: "int list \<Rightarrow> int list \<Rightarrow> kstate \<Rightarrow> bool" where
  "kinv x y0 s =
     (forest x (k_y s) \<and> length (k_threads s) = length x
      \<and> (\<forall>i<length x. (k_y s ! i = int i) = (y0 ! i = int i))
      \<and> par (k_y s) \<subseteq> (par y0)\<^sup>*
      \<and> (\<forall>i<length x. kthread_inv x y0 i (k_y s) (k_threads s ! i))
      \<and> k_count s = int (card {i. i < length x \<and> k_pc (k_threads s ! i) = K_done \<and> y0 ! i = int i}))"

definition kmeasure :: "nat \<Rightarrow> kthread \<Rightarrow> nat" where
  "kmeasure n t =
     (case k_pc t of
        K_start \<Rightarrow> 4 * n + 5
      | K_find \<Rightarrow> 4 * nat (k_j t) + 3
      | K_step \<Rightarrow> 4 * nat (k_j t) + 2
      | K_write \<Rightarrow> 1
      | K_done \<Rightarrow> 0)"

definition count_bound :: "nat \<Rightarrow> nat" where
  "count_bound n = 4 * n + 5"

text \<open>
  The invariant of the labels launch on the buffer \<open>y\<close> with \<open>maxlabel\<close> the number of its
  roots. A root thread that has passed the \<^verbatim>\<open>atomicAdd\<close> owns the slot it got; the slots
  handed out are the numbers below \<^verbatim>\<open>count[1]\<close>, each once.
\<close>

definition slot_owner :: "int list \<Rightarrow> lthread list \<Rightarrow> nat \<Rightarrow> bool" where
  "slot_owner y ts i =
     (i < length y \<and> y ! i = int i \<and> (l_pc (ts ! i) = L_write \<or> l_pc (ts ! i) = L_done))"

definition linv :: "int list \<Rightarrow> int \<Rightarrow> lstate \<Rightarrow> bool" where
  "linv y maxlabel s =
     (length (l_labels s) = nat maxlabel \<and> length (l_threads s) = length y
      \<and> (\<forall>i<length y. l_pc (l_threads s ! i) = L_add \<or> l_pc (l_threads s ! i) = L_write
            \<longrightarrow> y ! i = int i)
      \<and> l_count s = int (card {i. slot_owner y (l_threads s) i})
      \<and> (\<forall>i. slot_owner y (l_threads s) i
            \<longrightarrow> 0 \<le> l_j (l_threads s ! i) \<and> l_j (l_threads s ! i) < l_count s)
      \<and> inj_on (\<lambda>i. l_j (l_threads s ! i)) {i. slot_owner y (l_threads s) i}
      \<and> (\<forall>i. slot_owner y (l_threads s) i \<and> l_pc (l_threads s ! i) = L_done
            \<longrightarrow> l_labels s ! nat (l_j (l_threads s ! i)) = int i))"

definition lmeasure :: "lthread \<Rightarrow> nat" where
  "lmeasure t = (case l_pc t of L_start \<Rightarrow> 3 | L_add \<Rightarrow> 2 | L_write \<Rightarrow> 1 | L_done \<Rightarrow> 0)"

definition labels_bound :: nat where
  "labels_bound = 3"

text \<open>The root cells of a buffer, in ascending order.\<close>

definition roots :: "int list \<Rightarrow> int list" where
  "roots y = map int (filter (\<lambda>i. y ! i = int i) [0..<length y])"

subsection \<open>The result of _label\<close>

text \<open>
  What \<^verbatim>\<open>_label\<close> computes, said without schedules: every active cell gets the position,
  counted from 1, of the least cell of its component among the least cells of all
  components; the count is the number of components.
\<close>

definition label_spec :: "int list \<Rightarrow> int list \<Rightarrow> nat \<Rightarrow> nat \<Rightarrow> int list \<Rightarrow> int list \<times> int" where
  "label_spec shape dirs ndirs ndim x =
     (let y = canon shape dirs ndirs ndim x; rs = roots y
      in (u_kernel_finalize (int (length rs)) rs y, int (length rs)))"

text \<open>The schedules of the three launches give every thread the steps it needs.\<close>

definition fair_schedule :: "nat \<Rightarrow> nat \<Rightarrow> schedule \<Rightarrow> bool" where
  "fair_schedule n ndirs sch =
     (fair n (connect_bound n ndirs) (sch_connect sch)
      \<and> fair n (count_bound n) (sch_count sch)
      \<and> fair n labels_bound (sch_labels sch))"

text \<open>The launch parameters \<^verbatim>\<open>_label\<close> derives from its arguments.\<close>

definition label_dirs :: "ndarray \<Rightarrow> int list list" where
  "label_dirs structure =
     compile_dirs (arr_shape structure) (map (\<lambda>v. v \<noteq> 0) (arr_data structure))"

subsection \<open>Index tuples and chains\<close>

text \<open>
  The index tuple of cell \<open>i\<close> of an array of shape \<open>shp\<close>, the flat index of an index
  tuple (row-major), index tuples inside the array, and the sum of a tuple and an offset.
\<close>

definition coords :: "nat list \<Rightarrow> nat \<Rightarrow> int list" where
  "coords shp i = all_coords shp ! i"

definition ravel :: "nat list \<Rightarrow> int list \<Rightarrow> int" where
  "ravel shp c = foldl (\<lambda>acc (s, a). acc * int s + a) 0 (zip shp c)"

definition inbounds :: "nat list \<Rightarrow> int list \<Rightarrow> bool" where
  "inbounds shp c = (length c = length shp \<and> (\<forall>d<length shp. 0 \<le> c ! d \<and> c ! d < int (shp ! d)))"

definition vadd :: "int list \<Rightarrow> int list \<Rightarrow> int list" where
  "vadd c v = map2 (+) c v"

text \<open>
  One step of a chain: from an active cell to the active cell at one of the offsets
  \<open>vecs\<close>.
\<close>

definition se_step :: "nat list \<Rightarrow> int list \<Rightarrow> int list list \<Rightarrow> (nat \<times> nat) set" where
  "se_step shp x vecs =
     {(p, q). p < length x \<and> q < length x \<and> x ! p \<noteq> 0 \<and> x ! q \<noteq> 0
              \<and> (\<exists>v\<in>set vecs. coords shp q = vadd (coords shp p) v)}"

subsection \<open>The parts of label\<close>

text \<open>
  Names for the parts of \<^verbatim>\<open>label\<close>: the structure after the defaulting and the coercion to
  \<^verbatim>\<open>bool\<close>, the first failing check, the dtype of the output, whether the caller gave the
  output array, and the value returned.
\<close>

definition the_structure :: "ndarray \<Rightarrow> ndarray option \<Rightarrow> ndarray" where
  "the_structure input structure =
     (let s = (case structure of
                 None \<Rightarrow> u_generate_binary_structure (arr_ndim input) 1
               | Some s \<Rightarrow> s)
      in s\<lparr>arr_data := map (\<lambda>v. if v \<noteq> 0 then 1 else 0) (arr_data s)\<rparr>)"

definition is_complex :: "ndarray \<Rightarrow> bool" where
  "is_complex input = (arr_dtype input = Complex64 \<or> arr_dtype input = Complex128)"

definition validation :: "ndarray \<Rightarrow> ndarray option \<Rightarrow> out_arg \<Rightarrow> error option" where
  "validation input structure output =
     (if is_complex input then Some TypeError
      else if arr_ndim (the_structure input structure) \<noteq> arr_ndim input then Some RuntimeError
      else if \<exists>i\<in>set (arr_shape (the_structure input structure)). i \<noteq> 3 then Some ValueError
      else case output of
             Out_array a \<Rightarrow> if arr_shape a \<noteq> arr_shape input then Some ValueError else None
           | _ \<Rightarrow> None)"

fun out_dtype :: "out_arg \<Rightarrow> dtype" where
  "out_dtype Out_None = Int32"
| "out_dtype (Out_dtype d) = d"
| "out_dtype (Out_array a) = arr_dtype a"

fun caller_provided :: "out_arg \<Rightarrow> bool" where
  "caller_provided (Out_array a) = True"
| "caller_provided _ = False"

definition mk_ret :: "out_arg \<Rightarrow> int list \<Rightarrow> int \<Rightarrow> retval" where
  "mk_ret output out maxlabel =
     (if caller_provided output then Ret_count out maxlabel else Ret_pair out maxlabel)"

text \<open>
  The schedule that runs the threads one after the other, \<open>b\<close> steps each, and the schedule
  of a whole call that does so in the three launches.
\<close>

definition sequential :: "nat \<Rightarrow> nat \<Rightarrow> nat list" where
  "sequential n b = concat (map (\<lambda>i. replicate b i) [0..<n])"

definition sequential_schedule :: "nat \<Rightarrow> nat \<Rightarrow> schedule" where
  "sequential_schedule n ndirs =
     \<lparr>sch_connect = sequential n (connect_bound n ndirs),
      sch_count = sequential n (count_bound n),
      sch_labels = sequential n labels_bound\<rparr>"

section \<open>Properties\<close>

subsection \<open>The offset compiler\<close>



lemma all_coords_length: "c \<in> set (all_coords shp) \<Longrightarrow> length c = length shp"
  by (induction shp arbitrary: c) auto

lemma all_coords_range:
  "c \<in> set (all_coords shp) \<Longrightarrow> i < length shp \<Longrightarrow> 0 \<le> c ! i \<and> c ! i < int (shp ! i)"
proof (induction shp arbitrary: c i)
  case Nil then show ?case by simp
next
  case (Cons s ss)
  then show ?case by (cases i) auto
qed

lemma all_coords_distinct: "distinct (all_coords shp)"
proof (induction shp)
  case Nil show ?case by simp
next
  case (Cons s ss)
  show ?case
  proof (cases "all_coords ss = []")
    case True
    have e: "concat (map (\<lambda>i::nat. []) [0..<s]) = ([] :: int list list)" by (induction s) auto
    show ?thesis by (simp add: True e)
  next
    case ne: False
  show ?thesis
    unfolding all_coords.simps
  proof (rule distinct_concat)
    show "distinct (map (\<lambda>i. map ((#) (int i)) (all_coords ss)) [0..<s])"
      using ne by (cases "all_coords ss") (auto simp: distinct_map inj_on_def)
  next
    fix ys assume "ys \<in> set (map (\<lambda>i. map ((#) (int i)) (all_coords ss)) [0..<s])"
    then show "distinct ys" using Cons by (auto simp: distinct_map)
  next
    fix ys zs assume "ys \<in> set (map (\<lambda>i. map ((#) (int i)) (all_coords ss)) [0..<s])"
      "zs \<in> set (map (\<lambda>i. map ((#) (int i)) (all_coords ss)) [0..<s])" "ys \<noteq> zs"
    then show "set ys \<inter> set zs = {}" by auto
  qed
  qed
qed

lemma all_coords_length_list: "length (all_coords shp) = prod_list shp"
  by (induction shp) (auto simp: length_concat comp_def sum_list_triv)

lemma enc_snoc: "v \<noteq> [] \<Longrightarrow> enc (v @ [c]) = enc v * 3 + c"
  by (cases v) (auto simp: enc_def)

lemma enc_single: "enc [c] = c" by (simp add: enc_def)

lemma enc_uminus: "v \<noteq> [] \<Longrightarrow> enc (map uminus v) = - enc v"
proof (induction v rule: rev_induct)
  case Nil then show ?case by simp
next
  case (snoc c v)
  show ?case
  proof (cases "v = []")
    case True then show ?thesis by (simp add: enc_single)
  next
    case False
    then show ?thesis using snoc by (simp add: enc_snoc)
  qed
qed

lemma enc_zero_iff:
  "v \<noteq> [] \<Longrightarrow> \<forall>c\<in>set v. c = -1 \<or> c = 0 \<or> c = 1 \<Longrightarrow> enc v = 0 \<longleftrightarrow> v = replicate (length v) 0"
proof (induction v rule: rev_induct)
  case Nil then show ?case by simp
next
  case (snoc c v)
  show ?case
  proof (cases "v = []")
    case True then show ?thesis by (simp add: enc_single)
  next
    case False
    have c: "c = -1 \<or> c = 0 \<or> c = 1" using snoc.prems by auto
    have ih: "enc v = 0 \<longleftrightarrow> v = replicate (length v) 0" using snoc False by auto
    have "enc v * 3 + c = 0 \<longleftrightarrow> enc v = 0 \<and> c = 0" using c by presburger
    moreover have "replicate (Suc (length v)) (0::int) = replicate (length v) 0 @ [0]"
      by (simp add: replicate_append_same)
    ultimately show ?thesis using False ih
      by (simp add: enc_snoc)
  qed
qed


lemma np_where_distinct: "distinct (np_where shp bs)"
proof -
  have "distinct (map fst (zip (all_coords shp) bs))"
    by (simp add: map_fst_zip_take all_coords_distinct)
  then show ?thesis unfolding np_where_def by (rule distinct_map_filter)
qed

lemma np_where_subset: "set (np_where shp bs) \<subseteq> set (all_coords shp)"
  unfolding np_where_def by (auto dest: set_zip_leftD)

lemma struct_vecs_distinct: "distinct (struct_vecs shp bs)"
  unfolding struct_vecs_def
  by (auto simp: distinct_map np_where_distinct inj_on_def dest!: map_injective intro: injI)

lemma struct_vecs_ternary:
  assumes "v \<in> set (struct_vecs (replicate r 3) bs)"
  shows "ternary r v"
proof -
  obtain c where c: "c \<in> set (all_coords (replicate r 3))" and v: "v = map (\<lambda>a. a - 1) c"
    using assms np_where_subset unfolding struct_vecs_def by auto
  have len: "length c = r" using all_coords_length[OF c] by simp
  have "\<forall>i<r. 0 \<le> c ! i \<and> c ! i < 3"
    using all_coords_range[OF c] by auto
  then have "\<forall>a\<in>set c. a = 0 \<or> a = 1 \<or> a = 2"
    using len by (fastforce simp: in_set_conv_nth)
  then show ?thesis using len v by (auto simp: ternary_def)
qed

text \<open>
  Claim C2. For a centrosymmetric structure of rank \<open>r \<ge> 1\<close> with three cells per axis, the
  rows kept by the test \<open>enc v < 0\<close> are pairwise different, the all-zero offset is not
  among them, and of every active non-zero offset \<open>v\<close> exactly one of \<open>v\<close> and \<open>-v\<close> is kept:
  every undirected edge of the structure is visited once.
\<close>

theorem offset_dedup:
  assumes r: "1 \<le> r" and cs: "centrosymmetric (replicate r 3) bs"
  shows "distinct (compile_dirs (replicate r 3) bs)
       \<and> replicate r 0 \<notin> set (compile_dirs (replicate r 3) bs)
       \<and> (\<forall>v\<in>set (struct_vecs (replicate r 3) bs). v \<noteq> replicate r 0 \<longrightarrow>
            (v \<in> set (compile_dirs (replicate r 3) bs)) \<noteq>
            (map uminus v \<in> set (compile_dirs (replicate r 3) bs)))"
proof (intro conjI ballI impI)
  show "distinct (compile_dirs (replicate r 3) bs)"
    unfolding compile_dirs_def by (simp add: struct_vecs_distinct)
next
  have "enc (replicate r 0) = 0"
    using r enc_zero_iff[of "replicate r 0"] by auto
  then show "replicate r 0 \<notin> set (compile_dirs (replicate r 3) bs)"
    unfolding compile_dirs_def by auto
next
  fix v assume v: "v \<in> set (struct_vecs (replicate r 3) bs)" and nz: "v \<noteq> replicate r 0"
  have t: "ternary r v" using v by (rule struct_vecs_ternary)
  then have ne: "v \<noteq> []" using r by (auto simp: ternary_def)
  have mv: "map uminus v \<in> set (struct_vecs (replicate r 3) bs)"
    using cs v unfolding centrosymmetric_def by blast
  have "enc v \<noteq> 0" using enc_zero_iff[OF ne] t nz by (auto simp: ternary_def)
  moreover have "enc (map uminus v) = - enc v" using ne by (rule enc_uminus)
  ultimately show "(v \<in> set (compile_dirs (replicate r 3) bs)) \<noteq>
            (map uminus v \<in> set (compile_dirs (replicate r 3) bs))"
    using v mv unfolding compile_dirs_def by auto
qed

theorem offset_dedup_witness:
  "1 \<le> (1::nat) \<and> centrosymmetric (replicate 1 3) [True, True, True]
   \<and> struct_vecs (replicate 1 3) [True, True, True] = [[-1], [0], [1]]
   \<and> compile_dirs (replicate 1 3) [True, True, True] = [[-1]]
   \<and> distinct (compile_dirs (replicate 1 3) [True, True, True])
   \<and> replicate 1 0 \<notin> set (compile_dirs (replicate 1 3) [True, True, True])
   \<and> ([-1] \<in> set (compile_dirs (replicate 1 3) [True, True, True])) \<noteq>
       (map uminus [-1] \<in> set (compile_dirs (replicate 1 3) [True, True, True]))"
proof -
  have v: "struct_vecs (replicate 1 3) [True, True, True] = [[-1], [0], [1]]"
    by (simp add: struct_vecs_def np_where_def upt_rec)
  have c: "centrosymmetric (replicate 1 3) [True, True, True]"
    unfolding centrosymmetric_def v by simp
  have d: "compile_dirs (replicate 1 3) [True, True, True] = [[-1]]"
    unfolding compile_dirs_def v by (simp add: enc_def)
  have "[-1] \<in> set (struct_vecs (replicate 1 3) [True, True, True])"
    unfolding v by simp
  with offset_dedup[of 1 "[True, True, True]"] c v d show ?thesis by simp
qed

subsection \<open>The label compactor\<close>

lemma sdiv2_nonneg: "0 \<le> (a::int) \<Longrightarrow> a sdiv 2 = a div 2"
  by (simp add: signed_divide_int_def sgn_if)

lemma bsearch_finds:
  assumes "sorted_wrt (<) labels"
  shows "0 \<le> lo \<Longrightarrow> lo \<le> int k \<Longrightarrow> int k \<le> hi \<Longrightarrow> hi < int (length labels)
         \<Longrightarrow> bsearch labels (labels ! k) lo hi = int k"
proof (induction "nat (hi - lo)" arbitrary: lo hi rule: less_induct)
  case less
  let ?j = "(lo + hi) sdiv 2"
  have jdiv: "?j = (lo + hi) div 2" using less.prems by (intro sdiv2_nonneg) simp
  have klen: "k < length labels" using less.prems by simp
  show ?case
  proof (cases "lo < hi")
    case False
    then have "lo = int k" "hi = int k" using less.prems by auto
    then have "?j = int k" using jdiv by simp
    then show ?thesis using False by (subst bsearch.simps) (simp add: Let_def)
  next
    case True
    have jb: "lo \<le> ?j" "?j < hi" using True jdiv by auto
    then have jlen: "nat ?j < length labels" "0 \<le> ?j" using less.prems by auto
    have mono: "\<And>a b. a < b \<Longrightarrow> b < length labels \<Longrightarrow> labels ! a < labels ! b"
      using assms by (simp add: sorted_wrt_iff_nth_less)
    consider (eq) "k = nat ?j" | (lt) "k < nat ?j" | (gt) "nat ?j < k" by linarith
    then show ?thesis
    proof cases
      case eq
      then show ?thesis using True jlen by (subst bsearch.simps) (simp add: Let_def)
    next
      case lt
      then have l: "labels ! k < labels ! nat ?j" using mono jlen by simp
      have "bsearch labels (labels ! k) lo (?j - 1) = int k"
        using lt jb jlen less.prems by (intro less.hyps) auto
      then show ?thesis using True l by (subst bsearch.simps) (simp add: Let_def)
    next
      case gt
      then have l: "labels ! nat ?j < labels ! k" using mono klen by simp
      have "bsearch labels (labels ! k) (?j + 1) hi = int k"
        using gt jb jlen less.prems by (intro less.hyps) auto
      then show ?thesis using True l by (subst bsearch.simps) (simp add: Let_def)
    qed
  qed
qed

lemma finalize_cell_root:
  assumes "sorted labels" "distinct labels" "k < length labels" "0 \<le> labels ! k"
  shows "finalize_cell (int (length labels)) labels (labels ! k) = int k + 1"
proof -
  have s: "sorted_wrt (<) labels" using assms by (simp add: strict_sorted_iff)
  have "bsearch labels (labels ! k) 0 (int (length labels) - 1) = int k"
    using assms(3) by (intro bsearch_finds[OF s]) auto
  then show ?thesis using assms(4) by (simp add: finalize_cell_def)
qed



subsection \<open>The connect kernel\<close>

lemma sdiv_nonneg: "0 \<le> (a::int) \<Longrightarrow> 0 < b \<Longrightarrow> 0 \<le> a sdiv b"
  by (simp add: signed_divide_int_def sgn_if pos_imp_zdiv_nonneg_iff)

lemma neighbor_loop_range:
  "m \<le> length shape \<Longrightarrow> \<forall>s\<in>set shape. 0 < s \<Longrightarrow> 0 \<le> rest \<Longrightarrow> 0 < stride \<Longrightarrow> 0 \<le> k
   \<Longrightarrow> k < stride
   \<Longrightarrow> neighbor_loop shape dirs ndim dr m rest stride k = - 1
     \<or> (0 \<le> neighbor_loop shape dirs ndim dr m rest stride k
        \<and> neighbor_loop shape dirs ndim dr m rest stride k < stride * prod_list (take m shape))"
proof (induction m arbitrary: rest stride k)
  case 0
  then show ?case by simp
next
  case (Suc m)
  let ?s = "shape ! m"
  let ?pos = "rest smod ?s + dirs ! (m + dr * ndim)"
  have m: "m < length shape" using Suc.prems by simp
  then have s: "0 < ?s" using Suc.prems by simp
  show ?case
  proof (cases "?pos < 0 \<or> ?pos \<ge> ?s")
    case True
    then show ?thesis by (simp add: Let_def)
  next
    case False
    then have pos: "0 \<le> ?pos" "?pos < ?s" by auto
    have k0: "0 \<le> k + ?pos * stride" using pos Suc.prems by simp
    have "?pos * stride \<le> (?s - 1) * stride"
      using pos Suc.prems by (intro mult_right_mono) auto
    then have k1: "k + ?pos * stride < stride * ?s"
      using Suc.prems by (simp add: algebra_simps)
    have st: "0 < stride * ?s" using s Suc.prems by simp
    have r: "0 \<le> rest sdiv ?s" using Suc.prems s by (intro sdiv_nonneg) auto
    have tk: "take (Suc m) shape = take m shape @ [?s]"
      using m by (simp add: take_Suc_conv_app_nth)
    from Suc.IH[OF _ Suc.prems(2) r st k0 k1] m
    have "neighbor_loop shape dirs ndim dr m (rest sdiv ?s) (stride * ?s) (k + ?pos * stride) = - 1
      \<or> (0 \<le> neighbor_loop shape dirs ndim dr m (rest sdiv ?s) (stride * ?s) (k + ?pos * stride)
        \<and> neighbor_loop shape dirs ndim dr m (rest sdiv ?s) (stride * ?s) (k + ?pos * stride)
            < stride * ?s * prod_list (take m shape))" by simp
    then show ?thesis using False by (simp add: Let_def tk algebra_simps)
  qed
qed

lemma neighbor_range:
  assumes "grid_ok shape ndim n"
  shows "neighbor shape dirs ndim dr i = - 1
       \<or> (0 \<le> neighbor shape dirs ndim dr i \<and> neighbor shape dirs ndim dr i < int n)"
proof -
  have "neighbor_loop shape dirs ndim dr ndim (int i) 1 0 = - 1
     \<or> (0 \<le> neighbor_loop shape dirs ndim dr ndim (int i) 1 0
        \<and> neighbor_loop shape dirs ndim dr ndim (int i) 1 0 < 1 * prod_list (take ndim shape))"
    using assms by (intro neighbor_loop_range) (auto simp: grid_ok_def)
  then show ?thesis using assms by (simp add: neighbor_def grid_ok_def)
qed

lemma par_step: "0 \<le> a \<Longrightarrow> a < int (length y) \<Longrightarrow> 0 \<le> y ! nat a \<Longrightarrow> (a, y ! nat a) \<in> par y"
  by (simp add: par_def)

lemma forest_active:
  "forest x y \<Longrightarrow> active x a \<Longrightarrow> 0 \<le> y ! nat a \<and> y ! nat a \<le> a \<and> active x (y ! nat a)"
  unfolding forest_def active_def
  by (metis (no_types, lifting) int_nat_eq le_less_trans nat_less_iff of_nat_0_le_iff zless_nat_conj order.strict_trans1)

lemma par_active:
  assumes "forest x y" "(a, b) \<in> par y"
  shows "active x a \<and> active x b \<and> b \<le> a"
proof -
  from assms(2) have a: "0 \<le> a" "a < int (length y)" and b: "b = y ! nat a" "0 \<le> b"
    by (auto simp: par_def)
  have "nat a < length x" using a assms(1) by (simp add: forest_def)
  then have "x ! nat a \<noteq> 0" using assms(1) b unfolding forest_def by force
  then have "active x a" using a assms(1) by (simp add: active_def forest_def)
  then show ?thesis using forest_active[OF assms(1)] b by simp
qed

lemma anc_active:
  assumes "forest x y" "(a, b) \<in> (par y)\<^sup>*" "active x a"
  shows "active x b \<and> b \<le> a"
  using assms(2,3)
proof (induction rule: rtrancl_induct)
  case base then show ?case by simp
next
  case (step b c)
  then show ?case using par_active[OF assms(1) step(2)] by auto
qed

lemma par_fun: "(a, b) \<in> par y \<Longrightarrow> (a, c) \<in> par y \<Longrightarrow> b = c"
  by (simp add: par_def)

lemma par_update_refl:
  assumes "r < length y" "y ! r = int r" "0 \<le> p"
  shows "par y \<subseteq> (par (y[r := p]))\<^sup>="
proof
  fix e assume "e \<in> par y"
  then obtain a b where e: "e = (a, b)" and a: "0 \<le> a" "a < int (length y)"
    and b: "b = y ! nat a" "0 \<le> b" by (auto simp: par_def)
  show "e \<in> (par (y[r := p]))\<^sup>="
  proof (cases "nat a = r")
    case True
    then have "b = a" using b a assms by simp
    then show ?thesis using e by simp
  next
    case False
    then show ?thesis using e a b by (simp add: par_def)
  qed
qed

lemma anc_update_mono:
  assumes "r < length y" "y ! r = int r" "0 \<le> p"
  shows "(par y)\<^sup>* \<subseteq> (par (y[r := p]))\<^sup>*"
proof -
  have "(par y)\<^sup>* \<subseteq> ((par (y[r := p]))\<^sup>=)\<^sup>*"
    using par_update_refl[OF assms] by (rule rtrancl_mono)
  then show ?thesis by simp
qed

lemma grow_anc: "grow y y' \<Longrightarrow> (a, b) \<in> (par y)\<^sup>* \<Longrightarrow> (a, b) \<in> (par y')\<^sup>*"
  unfolding grow_def using anc_update_mono by blast

lemma grow_sametree: "grow y y' \<Longrightarrow> sametree y a b \<Longrightarrow> sametree y' a b"
  unfolding sametree_def using grow_anc by blast

lemma grow_link_ok:
  "grow y y' \<Longrightarrow> link_ok shape dirs ndim x y i dr \<Longrightarrow> link_ok shape dirs ndim x y' i dr"
  unfolding link_ok_def using grow_sametree by blast

lemma grow_in_loop:
  "grow y y' \<Longrightarrow> in_loop shape dirs ndirs ndim x i y t \<Longrightarrow> in_loop shape dirs ndirs ndim x i y' t"
  unfolding in_loop_def using grow_anc grow_link_ok by blast

lemma grow_nonroot:
  assumes "grow y y'" "0 \<le> j" "y ! nat j \<noteq> j"
  shows "y' ! nat j \<noteq> j"
proof -
  from assms(1) consider "y' = y" | r p where "r < length y" "y ! r = int r" "y' = y[r := p]"
    unfolding grow_def by blast
  then show ?thesis
  proof cases
    case 1 then show ?thesis using assms by simp
  next
    case 2
    then have "nat j \<noteq> r" using assms by auto
    then show ?thesis using 2 assms by simp
  qed
qed

lemma in_loop_bounds:
  assumes "forest x y" "i < length x" "in_loop shape dirs ndirs ndim x i y t"
  shows "active x (t_j t) \<and> t_j t \<le> int i \<and> active x (t_k t)
         \<and> t_k t \<le> neighbor shape dirs ndim (t_dr t) i"
proof -
  have ai: "active x (int i)" using assms by (simp add: in_loop_def active_def)
  show ?thesis using anc_active[OF assms(1)] ai assms(3) unfolding in_loop_def by blast
qed

lemma grow_thread_inv:
  assumes "forest x y" "i < length x" "grow y y'" "thread_inv shape dirs ndirs ndim x i y t"
  shows "thread_inv shape dirs ndirs ndim x i y' t"
proof (cases "t_pc t")
  case C_step_j
  then have il: "in_loop shape dirs ndirs ndim x i y t" and nr: "y ! nat (t_j t) \<noteq> t_j t"
    using assms(4) by (auto simp: thread_inv_def)
  have "0 \<le> t_j t" using in_loop_bounds[OF assms(1,2) il] by (simp add: active_def)
  then show ?thesis using C_step_j grow_in_loop[OF assms(3) il] grow_nonroot[OF assms(3) _ nr]
    by (simp add: thread_inv_def)
next
  case C_step_k
  then have il: "in_loop shape dirs ndirs ndim x i y t" and nr: "y ! nat (t_k t) \<noteq> t_k t"
    using assms(4) by (auto simp: thread_inv_def)
  have "0 \<le> t_k t" using in_loop_bounds[OF assms(1,2) il] by (simp add: active_def)
  then show ?thesis using C_step_k grow_in_loop[OF assms(3) il] grow_nonroot[OF assms(3) _ nr]
    by (simp add: thread_inv_def)
qed (use assms(3,4) in \<open>auto simp: thread_inv_def intro: grow_in_loop grow_link_ok\<close>)

lemma conn_sym: "(a, b) \<in> conn shape dirs ndirs ndim x \<Longrightarrow> (b, a) \<in> conn shape dirs ndirs ndim x"
proof -
  have "sym (conn shape dirs ndirs ndim x)"
    unfolding conn_def by (intro sym_rtrancl sym_Un_converse)
  then show "(a, b) \<in> conn shape dirs ndirs ndim x \<Longrightarrow> (b, a) \<in> conn shape dirs ndirs ndim x"
    by (rule symD)
qed

lemma conn_trans:
  "(a, b) \<in> conn shape dirs ndirs ndim x \<Longrightarrow> (b, c) \<in> conn shape dirs ndirs ndim x
   \<Longrightarrow> (a, c) \<in> conn shape dirs ndirs ndim x"
  unfolding conn_def by (rule rtrancl_trans)

lemma conn_edge:
  "active x (int i) \<Longrightarrow> dr < ndirs \<Longrightarrow> active x (neighbor shape dirs ndim dr i)
   \<Longrightarrow> (int i, neighbor shape dirs ndim dr i) \<in> conn shape dirs ndirs ndim x"
  unfolding conn_def edges_def by (intro r_into_rtrancl) auto

lemma anc_conn:
  assumes "par y \<subseteq> conn shape dirs ndirs ndim x" "(a, b) \<in> (par y)\<^sup>*"
  shows "(a, b) \<in> conn shape dirs ndirs ndim x"
proof -
  have "(par y)\<^sup>* \<subseteq> (conn shape dirs ndirs ndim x)\<^sup>*" using assms(1) by (rule rtrancl_mono)
  then show ?thesis using assms(2) by (auto simp: conn_def)
qed

lemma par_update_sub:
  "par (y[r := p]) \<subseteq> insert (int r, p) (par y)"
proof
  fix e assume "e \<in> par (y[r := p])"
  then obtain a where e: "e = (a, y[r := p] ! nat a)" and a: "0 \<le> a" "a < int (length y)"
    and b: "0 \<le> y[r := p] ! nat a" by (auto simp: par_def)
  have n: "nat a < length y" using a by simp
  show "e \<in> insert (int r, p) (par y)"
  proof (cases "nat a = r")
    case True
    then have "a = int r" using a by simp
    then show ?thesis using e n True by simp
  next
    case False
    then have "y[r := p] ! nat a = y ! nat a" by simp
    then show ?thesis using e a b by (simp add: par_def)
  qed
qed

lemma forest_update:
  assumes "forest x y" "active x (int r)" "active x p" "p \<le> int r"
  shows "forest x (y[r := p])"
  using assms unfolding forest_def active_def by (auto simp: nth_list_update)

text \<open>A successful compare-and-swap that hangs root \<open>r\<close> under \<open>p\<close>.\<close>

lemma cas_success:
  assumes f: "forest x y" and snd: "par y \<subseteq> conn shape dirs ndirs ndim x"
    and i: "i < length x"
    and il: "in_loop shape dirs ndirs ndim x i y t"
    and rp: "(r = t_k t \<and> p = t_j t) \<or> (r = t_j t \<and> p = t_k t)"
    and lt: "p < r" and root: "y ! nat r = r"
  shows "grow y (y[nat r := p]) \<and> forest x (y[nat r := p])
       \<and> par (y[nat r := p]) \<subseteq> conn shape dirs ndirs ndim x
       \<and> thread_inv shape dirs ndirs ndim x i (y[nat r := p]) (next_dir t)"
proof -
  let ?nb = "neighbor shape dirs ndim (t_dr t) i"
  let ?y' = "y[nat r := p]"
  have b: "active x (t_j t)" "active x (t_k t)" using in_loop_bounds[OF f i il] by auto
  then have ar: "active x r" and ap: "active x p" using rp by auto
  then have r0: "0 \<le> r" "nat r < length y" "0 \<le> p" using f by (auto simp: active_def forest_def)
  have g: "grow y ?y'" unfolding grow_def using r0 root by auto
  have fo: "forest x ?y'" using forest_update[OF f, of "nat r" p] ar ap lt r0 by simp
  have ai: "active x (int i)" using il i by (simp add: in_loop_def active_def)
  have anb: "active x ?nb" and dr: "t_dr t < ndirs" using il by (auto simp: in_loop_def)
  have ij: "(int i, t_j t) \<in> (par y)\<^sup>*" and nk: "(?nb, t_k t) \<in> (par y)\<^sup>*"
    using il by (auto simp: in_loop_def)
  have c1: "(int i, t_j t) \<in> conn shape dirs ndirs ndim x" using anc_conn[OF snd ij] .
  have c2: "(?nb, t_k t) \<in> conn shape dirs ndirs ndim x" using anc_conn[OF snd nk] .
  have c3: "(int i, ?nb) \<in> conn shape dirs ndirs ndim x" using conn_edge[OF ai dr anb] .
  have jk: "(t_j t, t_k t) \<in> conn shape dirs ndirs ndim x"
    using conn_trans[OF conn_trans[OF conn_sym[OF c1] c3] c2] .
  then have rpc: "(r, p) \<in> conn shape dirs ndirs ndim x" using rp conn_sym by blast
  have so: "par ?y' \<subseteq> conn shape dirs ndirs ndim x"
    using par_update_sub[of y "nat r" p] snd rpc r0 by auto
  have e: "(r, p) \<in> par ?y'" using r0 by (simp add: par_def)
  have ij': "(int i, t_j t) \<in> (par ?y')\<^sup>*" and nk': "(?nb, t_k t) \<in> (par ?y')\<^sup>*"
    using grow_anc[OF g] ij nk by auto
  have "sametree ?y' (int i) ?nb"
  proof -
    from rp show ?thesis
    proof
      assume "r = t_k t \<and> p = t_j t"
      then have "(?nb, t_j t) \<in> (par ?y')\<^sup>*" using nk' e by (metis rtrancl.rtrancl_into_rtrancl)
      then show ?thesis using ij' unfolding sametree_def by blast
    next
      assume "r = t_j t \<and> p = t_k t"
      then have "(int i, t_k t) \<in> (par ?y')\<^sup>*" using ij' e by (metis rtrancl.rtrancl_into_rtrancl)
      then show ?thesis using nk' unfolding sametree_def by blast
    qed
  qed
  then have lk: "link_ok shape dirs ndim x ?y' i (t_dr t)" by (simp add: link_ok_def)
  have prev: "\<forall>d<t_dr t. link_ok shape dirs ndim x ?y' i d"
    using il grow_link_ok[OF g] by (auto simp: in_loop_def)
  have "\<forall>d<Suc (t_dr t). link_ok shape dirs ndim x ?y' i d"
    using lk prev less_Suc_eq by auto
  then have "thread_inv shape dirs ndirs ndim x i ?y' (next_dir t)"
    using il dr by (simp add: thread_inv_def next_dir_def in_loop_def)
  then show ?thesis using g fo so by blast
qed

lemma in_loop_step_j:
  assumes f: "forest x y" and i: "i < length x" and il: "in_loop shape dirs ndirs ndim x i y t"
  shows "in_loop shape dirs ndirs ndim x i y (t\<lparr>t_pc := pc, t_j := y ! nat (t_j t)\<rparr>)"
proof -
  have a: "active x (t_j t)" using in_loop_bounds[OF f i il] by simp
  then have "(t_j t, y ! nat (t_j t)) \<in> par y"
    using forest_active[OF f a] f by (intro par_step) (auto simp: active_def forest_def)
  then have "(int i, y ! nat (t_j t)) \<in> (par y)\<^sup>*"
    using il unfolding in_loop_def by (meson rtrancl.rtrancl_into_rtrancl)
  then show ?thesis using il by (simp add: in_loop_def)
qed

lemma in_loop_step_k:
  assumes f: "forest x y" and i: "i < length x" and il: "in_loop shape dirs ndirs ndim x i y t"
  shows "in_loop shape dirs ndirs ndim x i y (t\<lparr>t_pc := pc, t_k := y ! nat (t_k t)\<rparr>)"
proof -
  have a: "active x (t_k t)" using in_loop_bounds[OF f i il] by simp
  then have "(t_k t, y ! nat (t_k t)) \<in> par y"
    using forest_active[OF f a] f by (intro par_step) (auto simp: active_def forest_def)
  then have "(neighbor shape dirs ndim (t_dr t) i, y ! nat (t_k t)) \<in> (par y)\<^sup>*"
    using il unfolding in_loop_def by (meson rtrancl.rtrancl_into_rtrancl)
  then show ?thesis using il by (simp add: in_loop_def)
qed

lemma in_loop_pc: "in_loop shape dirs ndirs ndim x i y (t\<lparr>t_pc := pc\<rparr>) = in_loop shape dirs ndirs ndim x i y t"
  by (simp add: in_loop_def)

lemma grow_refl: "grow y y" by (simp add: grow_def)

lemma connect_thread_step_inv:
  assumes g: "grid_ok shape ndim (length x)" and f: "forest x y"
    and snd: "par y \<subseteq> conn shape dirs ndirs ndim x"
    and i: "i < length x"
    and ti: "thread_inv shape dirs ndirs ndim x i y t"
    and st: "connect_thread_step shape dirs ndirs ndim i y t = (y', t')"
  shows "grow y y' \<and> forest x y' \<and> par y' \<subseteq> conn shape dirs ndirs ndim x
       \<and> thread_inv shape dirs ndirs ndim x i y' t'"
proof (cases "t_pc t")
  case C_start
  have "y ! i < 0 \<Longrightarrow> x ! i = 0" using f i unfolding forest_def by (metis not_le)
  moreover have "\<not> y ! i < 0 \<Longrightarrow> x ! i \<noteq> 0" using f i unfolding forest_def by force
  ultimately show ?thesis using C_start st f snd
    by (auto simp: thread_inv_def grow_refl split: if_splits)
next
  case C_head
  let ?nb = "neighbor shape dirs ndim (t_dr t) i"
  have h: "x ! i \<noteq> 0" "t_dr t \<le> ndirs" "\<forall>dr<t_dr t. link_ok shape dirs ndim x y i dr"
    using ti C_head by (auto simp: thread_inv_def)
  have y': "y' = y" using st C_head by (auto simp: Let_def split: if_splits)
  show ?thesis
  proof (cases "t_dr t < ndirs")
    case False
    then have "t' = t\<lparr>t_pc := C_done\<rparr>" using st C_head by auto
    then show ?thesis using y' f snd h False by (auto simp: thread_inv_def grow_refl)
  next
    case True
    have rng: "?nb = - 1 \<or> (0 \<le> ?nb \<and> ?nb < int (length x))" using neighbor_range[OF g] .
    show ?thesis
    proof (cases "?nb < 0 \<or> y ! nat ?nb < 0")
      case skip: True
      then have t': "t' = next_dir t" using st C_head True
        by (auto simp: Let_def split: if_splits)
      have "\<not> active x ?nb"
      proof
        assume a: "active x ?nb"
        then have "0 \<le> y ! nat ?nb" using forest_active[OF f a] by simp
        then show False using skip a by (auto simp: active_def)
      qed
      then have "link_ok shape dirs ndim x y i (t_dr t)" by (simp add: link_ok_def)
      then have "\<forall>d<Suc (t_dr t). link_ok shape dirs ndim x y i d"
        using h less_Suc_eq by auto
      then show ?thesis using y' t' f snd h True
        by (auto simp: thread_inv_def next_dir_def grow_refl)
    next
      case go: False
      then have t': "t' = t\<lparr>t_pc := C_find_j, t_j := int i, t_k := ?nb\<rparr>"
        using st C_head True by (auto simp: Let_def split: if_splits)
      have nb: "0 \<le> ?nb" "nat ?nb < length x" using go rng by auto
      then have "x ! nat ?nb \<noteq> 0" using f go unfolding forest_def by force
      then have "active x ?nb" using nb by (simp add: active_def)
      then show ?thesis using y' t' f snd h True
        by (auto simp: thread_inv_def in_loop_def grow_refl)
    qed
  qed
next
  case C_find_j
  then have il: "in_loop shape dirs ndirs ndim x i y t" using ti by (simp add: thread_inv_def)
  show ?thesis using st C_find_j il f snd
    by (auto simp: thread_inv_def in_loop_pc grow_refl split: if_splits)
next
  case C_step_j
  then have il: "in_loop shape dirs ndirs ndim x i y t" using ti by (simp add: thread_inv_def)
  show ?thesis using st C_step_j in_loop_step_j[OF f i il, of C_find_j] f snd
    by (auto simp: thread_inv_def grow_refl)
next
  case C_find_k
  then have il: "in_loop shape dirs ndirs ndim x i y t" using ti by (simp add: thread_inv_def)
  have y': "y' = y" using st C_find_k by (auto split: if_splits)
  show ?thesis
  proof (cases "t_k t \<noteq> y ! nat (t_k t)")
    case True
    then show ?thesis using st C_find_k il f snd y'
      by (auto simp: thread_inv_def in_loop_pc grow_refl)
  next
    case root: False
    show ?thesis
    proof (cases "t_j t = t_k t")
      case True
      then have t': "t' = next_dir t" using st C_find_k root by auto
      have "sametree y (int i) (neighbor shape dirs ndim (t_dr t) i)"
        using il True unfolding in_loop_def sametree_def by metis
      then have "link_ok shape dirs ndim x y i (t_dr t)" by (simp add: link_ok_def)
      then have "\<forall>d<Suc (t_dr t). link_ok shape dirs ndim x y i d"
        using il less_Suc_eq by (auto simp: in_loop_def)
      then show ?thesis using y' t' f snd il
        by (auto simp: thread_inv_def next_dir_def in_loop_def grow_refl)
    next
      case False
      then show ?thesis using st C_find_k root il f snd y'
        by (auto simp: thread_inv_def in_loop_pc grow_refl split: if_splits)
    qed
  qed
next
  case C_step_k
  then have il: "in_loop shape dirs ndirs ndim x i y t" using ti by (simp add: thread_inv_def)
  show ?thesis using st C_step_k in_loop_step_k[OF f i il, of C_find_k] f snd
    by (auto simp: thread_inv_def grow_refl)
next
  case C_cas_k
  then have il: "in_loop shape dirs ndirs ndim x i y t" and lt: "t_j t < t_k t"
    using ti by (auto simp: thread_inv_def)
  show ?thesis
  proof (cases "y ! nat (t_k t) = t_k t")
    case True
    then have "y' = y[nat (t_k t) := t_j t]" "t' = next_dir t" using st C_cas_k by (auto simp: Let_def)
    then show ?thesis using cas_success[OF f snd i il _ lt True] by simp
  next
    case False
    then have "y' = y" "t' = t\<lparr>t_pc := C_find_j, t_k := y ! nat (t_k t)\<rparr>"
      using st C_cas_k by (auto simp: Let_def)
    then show ?thesis using in_loop_step_k[OF f i il, of C_find_j] f snd
      by (auto simp: thread_inv_def grow_refl)
  qed
next
  case C_cas_j
  then have il: "in_loop shape dirs ndirs ndim x i y t" and lt: "t_k t < t_j t"
    using ti by (auto simp: thread_inv_def)
  show ?thesis
  proof (cases "y ! nat (t_j t) = t_j t")
    case True
    then have "y' = y[nat (t_j t) := t_k t]" "t' = next_dir t" using st C_cas_j by (auto simp: Let_def)
    then show ?thesis using cas_success[OF f snd i il _ lt True] by simp
  next
    case False
    then have "y' = y" "t' = t\<lparr>t_pc := C_find_j, t_j := y ! nat (t_j t)\<rparr>"
      using st C_cas_j by (auto simp: Let_def)
    then show ?thesis using in_loop_step_j[OF f i il, of C_find_j] f snd
      by (auto simp: thread_inv_def grow_refl)
  qed
next
  case C_done
  then show ?thesis using st ti f snd by (auto simp: thread_inv_def grow_refl)
qed

lemma forest_init: "forest x (u_kernel_init x)"
  by (auto simp: forest_def u_kernel_init_def)

lemma par_init: "par (u_kernel_init x) \<subseteq> Id"
  by (auto simp: par_def u_kernel_init_def split: if_splits)

lemma cinv_init: "cinv shape dirs ndirs ndim x (connect_init (u_kernel_init x))"
proof -
  have "Id \<subseteq> conn shape dirs ndirs ndim x" by (auto simp: conn_def)
  then have "par (u_kernel_init x) \<subseteq> conn shape dirs ndirs ndim x" using par_init by blast
  moreover have "length (u_kernel_init x) = length x" by (simp add: u_kernel_init_def)
  ultimately show ?thesis
    by (simp add: cinv_def connect_init_def forest_init thread_inv_def)
qed

lemma grow_forest_len: "grow y y' \<Longrightarrow> length y' = length y"
  by (auto simp: grow_def)

lemma cinv_step:
  assumes g: "grid_ok shape ndim (length x)" and c: "cinv shape dirs ndirs ndim x s"
  shows "cinv shape dirs ndirs ndim x (connect_step shape dirs ndirs ndim i s)"
proof (cases "i < length (c_threads s)")
  case False
  then show ?thesis using c by (simp add: connect_step_def)
next
  case True
  then have i: "i < length x" using c by (simp add: cinv_def)
  obtain y' t' where st:
    "connect_thread_step shape dirs ndirs ndim i (c_y s) (c_threads s ! i) = (y', t')"
    by (cases "connect_thread_step shape dirs ndirs ndim i (c_y s) (c_threads s ! i)")
  have f: "forest x (c_y s)" and snd: "par (c_y s) \<subseteq> conn shape dirs ndirs ndim x"
    and ti: "\<forall>j<length x. thread_inv shape dirs ndirs ndim x j (c_y s) (c_threads s ! j)"
    and len: "length (c_threads s) = length x"
    using c by (auto simp: cinv_def)
  from connect_thread_step_inv[OF g f snd i _ st] ti i
  have r: "grow (c_y s) y'" "forest x y'" "par y' \<subseteq> conn shape dirs ndirs ndim x"
    "thread_inv shape dirs ndirs ndim x i y' t'" by auto
  have s': "connect_step shape dirs ndirs ndim i s = \<lparr>c_y = y', c_threads = (c_threads s)[i := t']\<rparr>"
    using True st by (simp add: connect_step_def)
  have "\<forall>j<length x. thread_inv shape dirs ndirs ndim x j y' ((c_threads s)[i := t'] ! j)"
  proof (intro allI impI)
    fix j assume j: "j < length x"
    show "thread_inv shape dirs ndirs ndim x j y' ((c_threads s)[i := t'] ! j)"
    proof (cases "j = i")
      case True then show ?thesis using r(4) len i by simp
    next
      case False
      then show ?thesis using grow_thread_inv[OF f j r(1)] ti j by simp
    qed
  qed
  then show ?thesis using r len by (simp add: s' cinv_def)
qed

lemma cinv_run:
  assumes g: "grid_ok shape ndim (length x)"
  shows "cinv shape dirs ndirs ndim x s
         \<Longrightarrow> cinv shape dirs ndirs ndim x (connect_run shape dirs ndirs ndim sched s)"
  unfolding connect_run_def
  by (induction sched arbitrary: s) (auto intro: cinv_step[OF g])


lemma nonroot_less:
  assumes "forest x y" "active x a" "y ! nat a \<noteq> a"
  shows "nat (y ! nat a) < nat a"
  using forest_active[OF assms(1,2)] assms(3) by auto

lemma connect_thread_step_measure:
  assumes g: "grid_ok shape ndim (length x)" and f: "forest x y"
    and i: "i < length x"
    and ti: "thread_inv shape dirs ndirs ndim x i y t"
    and st: "connect_thread_step shape dirs ndirs ndim i y t = (y', t')"
    and nd: "t_pc t \<noteq> C_done"
  shows "tmeasure (length x) ndirs t' < tmeasure (length x) ndirs t"
proof (cases "t_pc t")
  case C_start
  then show ?thesis using st by (auto simp: tmeasure_def split: if_splits)
next
  case C_head
  let ?nb = "neighbor shape dirs ndim (t_dr t) i"
  show ?thesis
  proof (cases "t_dr t < ndirs")
    case False
    then show ?thesis using st C_head by (auto simp: tmeasure_def)
  next
    case True
    have rng: "?nb = - 1 \<or> (0 \<le> ?nb \<and> ?nb < int (length x))" using neighbor_range[OF g] .
    show ?thesis
    proof (cases "?nb < 0 \<or> y ! nat ?nb < 0")
      case skip: True
      then have t': "t' = next_dir t" using st C_head True
        by (auto simp: Let_def split: if_splits)
      have "ndirs - Suc (t_dr t) + 1 < ndirs - t_dr t + 1" using True by simp
      then show ?thesis using C_head t' by (simp add: tmeasure_def next_dir_def)
    next
      case go: False
      then have t': "t' = t\<lparr>t_pc := C_find_j, t_j := int i, t_k := ?nb\<rparr>"
        using st C_head True by (auto simp: Let_def split: if_splits)
      have "nat ?nb < length x" using go rng by auto
      then have "8 * (i + nat ?nb) + 5 + 1 < 16 * length x + 16" using i by simp
      then show ?thesis using C_head t' by (simp add: tmeasure_def)
    qed
  qed
next
  case C_find_j
  then show ?thesis using st by (auto simp: tmeasure_def split: if_splits)
next
  case C_step_j
  then have il: "in_loop shape dirs ndirs ndim x i y t" and nr: "y ! nat (t_j t) \<noteq> t_j t"
    using ti by (auto simp: thread_inv_def)
  have "nat (y ! nat (t_j t)) < nat (t_j t)"
    using nonroot_less[OF f _ nr] in_loop_bounds[OF f i il] by simp
  then show ?thesis using st C_step_j by (auto simp: tmeasure_def)
next
  case C_find_k
  then have il: "in_loop shape dirs ndirs ndim x i y t" using ti by (auto simp: thread_inv_def)
  then have dr: "t_dr t < ndirs" by (simp add: in_loop_def)
  have "(ndirs - Suc (t_dr t) + 1) * (16 * length x + 16) = (ndirs - t_dr t) * (16 * length x + 16)"
    using dr by (simp add: Suc_diff_Suc)
  then show ?thesis using st C_find_k
    by (auto simp: tmeasure_def next_dir_def split: if_splits)
next
  case C_step_k
  then have il: "in_loop shape dirs ndirs ndim x i y t" and nr: "y ! nat (t_k t) \<noteq> t_k t"
    using ti by (auto simp: thread_inv_def)
  have "nat (y ! nat (t_k t)) < nat (t_k t)"
    using nonroot_less[OF f _ nr] in_loop_bounds[OF f i il] by simp
  then show ?thesis using st C_step_k by (auto simp: tmeasure_def)
next
  case C_cas_k
  then have il: "in_loop shape dirs ndirs ndim x i y t" using ti by (auto simp: thread_inv_def)
  then have dr: "t_dr t < ndirs" by (simp add: in_loop_def)
  have e: "(ndirs - Suc (t_dr t) + 1) * (16 * length x + 16) = (ndirs - t_dr t) * (16 * length x + 16)"
    using dr by (simp add: Suc_diff_Suc)
  show ?thesis
  proof (cases "y ! nat (t_k t) = t_k t")
    case True
    then show ?thesis using st C_cas_k e by (auto simp: tmeasure_def next_dir_def Let_def)
  next
    case False
    have "nat (y ! nat (t_k t)) < nat (t_k t)"
      using nonroot_less[OF f _ False] in_loop_bounds[OF f i il] by simp
    then show ?thesis using st C_cas_k False by (auto simp: tmeasure_def Let_def)
  qed
next
  case C_cas_j
  then have il: "in_loop shape dirs ndirs ndim x i y t" using ti by (auto simp: thread_inv_def)
  then have dr: "t_dr t < ndirs" by (simp add: in_loop_def)
  have e: "(ndirs - Suc (t_dr t) + 1) * (16 * length x + 16) = (ndirs - t_dr t) * (16 * length x + 16)"
    using dr by (simp add: Suc_diff_Suc)
  show ?thesis
  proof (cases "y ! nat (t_j t) = t_j t")
    case True
    then show ?thesis using st C_cas_j e by (auto simp: tmeasure_def next_dir_def Let_def)
  next
    case False
    have "nat (y ! nat (t_j t)) < nat (t_j t)"
      using nonroot_less[OF f _ False] in_loop_bounds[OF f i il] by simp
    then show ?thesis using st C_cas_j False by (auto simp: tmeasure_def Let_def)
  qed
next
  case C_done
  then show ?thesis using nd by simp
qed

lemma tmeasure_zero: "tmeasure n ndirs t = 0 \<longleftrightarrow> t_pc t = C_done"
  by (cases "t_pc t") (auto simp: tmeasure_def)

text \<open>A generic bound: every step of thread \<open>i\<close> lowers its measure, no other step raises it.\<close>

lemma fold_measure:
  assumes inv: "\<And>s t. I s \<Longrightarrow> I (step t s)"
    and dec: "\<And>s. I s \<Longrightarrow> m (step i s) \<le> m s - 1"
    and oth: "\<And>s t. I s \<Longrightarrow> t \<noteq> i \<Longrightarrow> m (step t s) \<le> m s"
  shows "I s \<Longrightarrow> m (fold step sched s) \<le> m s - count_list sched i"
proof (induction sched arbitrary: s)
  case Nil
  then show ?case by simp
next
  case (Cons t ts)
  have I': "I (step t s)" using Cons.prems by (rule inv)
  have ih: "m (fold step ts (step t s)) \<le> m (step t s) - count_list ts i"
    using Cons.IH[OF I'] .
  show ?case
  proof (cases "t = i")
    case True
    have "m (step i s) \<le> m s - 1" using dec[OF Cons.prems] .
    then show ?thesis using ih True by simp
  next
    case False
    have "m (step t s) \<le> m s" using oth[OF Cons.prems False] .
    then show ?thesis using ih False by simp
  qed
qed

lemma connect_step_measure_dec:
  assumes g: "grid_ok shape ndim (length x)" and c: "cinv shape dirs ndirs ndim x s"
    and i: "i < length x"
  shows "tmeasure (length x) ndirs (c_threads (connect_step shape dirs ndirs ndim i s) ! i)
         \<le> tmeasure (length x) ndirs (c_threads s ! i) - 1"
proof -
  have len: "length (c_threads s) = length x" and f: "forest x (c_y s)"
    and ti: "thread_inv shape dirs ndirs ndim x i (c_y s) (c_threads s ! i)"
    using c i by (auto simp: cinv_def)
  obtain y' t' where st:
    "connect_thread_step shape dirs ndirs ndim i (c_y s) (c_threads s ! i) = (y', t')"
    by (cases "connect_thread_step shape dirs ndirs ndim i (c_y s) (c_threads s ! i)")
  have s': "c_threads (connect_step shape dirs ndirs ndim i s) ! i = t'"
    using st i len by (simp add: connect_step_def)
  show ?thesis
  proof (cases "t_pc (c_threads s ! i) = C_done")
    case True
    then have "t' = c_threads s ! i" using st by simp
    then show ?thesis using s' True by (simp add: tmeasure_def)
  next
    case False
    from connect_thread_step_measure[OF g f i ti st False] show ?thesis using s' by simp
  qed
qed

lemma connect_step_other:
  "t \<noteq> i \<Longrightarrow> c_threads (connect_step shape dirs ndirs ndim t s) ! i = c_threads s ! i"
  by (simp add: connect_step_def split: prod.splits del: connect_thread_step.simps)

lemma connect_run_measure:
  assumes g: "grid_ok shape ndim (length x)" and c: "cinv shape dirs ndirs ndim x s"
    and i: "i < length x"
  shows "tmeasure (length x) ndirs (c_threads (connect_run shape dirs ndirs ndim sched s) ! i)
         \<le> tmeasure (length x) ndirs (c_threads s ! i) - count_list sched i"
  unfolding connect_run_def
proof (rule fold_measure[where I = "cinv shape dirs ndirs ndim x"
      and m = "\<lambda>s. tmeasure (length x) ndirs (c_threads s ! i)"])
  show "\<And>s t. cinv shape dirs ndirs ndim x s \<Longrightarrow> cinv shape dirs ndirs ndim x (connect_step shape dirs ndirs ndim t s)"
    by (rule cinv_step[OF g])
  show "\<And>s. cinv shape dirs ndirs ndim x s \<Longrightarrow>
      tmeasure (length x) ndirs (c_threads (connect_step shape dirs ndirs ndim i s) ! i)
      \<le> tmeasure (length x) ndirs (c_threads s ! i) - 1"
    by (rule connect_step_measure_dec[OF g _ i])
  show "\<And>s t. cinv shape dirs ndirs ndim x s \<Longrightarrow> t \<noteq> i \<Longrightarrow>
      tmeasure (length x) ndirs (c_threads (connect_step shape dirs ndirs ndim t s) ! i)
      \<le> tmeasure (length x) ndirs (c_threads s ! i)"
    by (simp add: connect_step_other)
  show "cinv shape dirs ndirs ndim x s" by (rule c)
qed

lemma connect_completes:
  assumes g: "grid_ok shape ndim (length x)"
    and fr: "fair (length x) (connect_bound (length x) ndirs) sched"
  shows "connect_done (connect_run shape dirs ndirs ndim sched (connect_init (u_kernel_init x)))"
proof -
  let ?ini = "connect_init (u_kernel_init x)"
  let ?s = "connect_run shape dirs ndirs ndim sched ?ini"
  have c0: "cinv shape dirs ndirs ndim x ?ini" by (rule cinv_init)
  have c: "cinv shape dirs ndirs ndim x ?s" by (rule cinv_run[OF g c0])
  have len: "length (c_threads ?s) = length x" using c by (simp add: cinv_def)
  have "\<forall>i<length x. t_pc (c_threads ?s ! i) = C_done"
  proof (intro allI impI)
    fix i assume i: "i < length x"
    have "tmeasure (length x) ndirs (c_threads ?ini ! i) = connect_bound (length x) ndirs"
      using i by (simp add: connect_init_def tmeasure_def connect_bound_def u_kernel_init_def)
    moreover have "connect_bound (length x) ndirs \<le> count_list sched i"
      using fr i by (simp add: fair_def)
    ultimately have "tmeasure (length x) ndirs (c_threads ?s ! i) = 0"
      using connect_run_measure[OF g c0 i, of sched] by simp
    then show "t_pc (c_threads ?s ! i) = C_done" by (simp add: tmeasure_zero)
  qed
  then show ?thesis using len by (simp add: connect_done_def list_all_length)
qed

lemma root_exists:
  assumes f: "forest x y"
  shows "active x a \<Longrightarrow> \<exists>r. is_root_of y a r"
proof (induction "nat a" arbitrary: a rule: less_induct)
  case less
  show ?case
  proof (cases "y ! nat a = a")
    case True
    then show ?thesis unfolding is_root_of_def by blast
  next
    case False
    have fa: "0 \<le> y ! nat a" "y ! nat a \<le> a" "active x (y ! nat a)"
      using forest_active[OF f less.prems] by auto
    have "nat (y ! nat a) < nat a" using fa False by auto
    then obtain r where r: "is_root_of y (y ! nat a) r" using less.hyps fa by blast
    have "(a, y ! nat a) \<in> par y"
      using less.prems fa f by (intro par_step) (auto simp: active_def forest_def)
    then show ?thesis using r unfolding is_root_of_def
      by (meson converse_rtrancl_into_rtrancl)
  qed
qed

lemma root_stays: "(r, c) \<in> (par y)\<^sup>* \<Longrightarrow> y ! nat r = r \<Longrightarrow> c = r"
proof (induction rule: rtrancl_induct)
  case base then show ?case by simp
next
  case (step b c)
  then show ?case by (simp add: par_def)
qed

lemma root_unique:
  assumes "is_root_of y a r1" "is_root_of y a r2"
  shows "r1 = r2"
proof -
  have sv: "single_valued (par y)" by (auto simp: single_valued_def par_def)
  have "(r1, r2) \<in> (par y)\<^sup>* \<or> (r2, r1) \<in> (par y)\<^sup>*"
    using single_valued_confluent[OF sv] assms unfolding is_root_of_def by blast
  then show ?thesis using root_stays assms unfolding is_root_of_def by blast
qed

lemma root_of_anc:
  assumes "(a, b) \<in> (par y)\<^sup>*" "is_root_of y b r"
  shows "is_root_of y a r"
  using assms unfolding is_root_of_def by (meson rtrancl_trans)

lemma sametree_root:
  assumes f: "forest x y" and a: "active x a" and st: "sametree y a b" and r: "is_root_of y a r"
  shows "is_root_of y b r"
proof -
  from st obtain c where c: "(a, c) \<in> (par y)\<^sup>*" "(b, c) \<in> (par y)\<^sup>*"
    unfolding sametree_def by blast
  have "active x c" using anc_active[OF f c(1) a] by simp
  then obtain r' where r': "is_root_of y c r'" using root_exists[OF f] by blast
  have "is_root_of y a r'" using root_of_anc[OF c(1) r'] .
  then have "r' = r" using root_unique r by blast
  then show ?thesis using root_of_anc[OF c(2) r'] by simp
qed

lemma edge_active: "(a, b) \<in> edges shape dirs ndirs ndim x \<Longrightarrow> active x a \<and> active x b"
  by (simp add: edges_def)

lemma conn_active:
  "(a, b) \<in> conn shape dirs ndirs ndim x \<Longrightarrow> active x a \<Longrightarrow> active x b"
  unfolding conn_def
  by (induction rule: rtrancl_induct) (auto dest: edge_active)

text \<open>When every thread has finished, connected cells share their root.\<close>

lemma done_link:
  assumes c: "cinv shape dirs ndirs ndim x s" and d: "connect_done s"
    and e: "(a, b) \<in> edges shape dirs ndirs ndim x"
  shows "sametree (c_y s) a b"
proof -
  from e obtain dr where a: "active x a" and b: "active x b" and dr: "dr < ndirs"
    and nb: "b = neighbor shape dirs ndim dr (nat a)" by (auto simp: edges_def)
  have i: "nat a < length x" "x ! nat a \<noteq> 0" "int (nat a) = a" using a by (auto simp: active_def)
  have "t_pc (c_threads s ! nat a) = C_done"
    using d c i by (simp add: connect_done_def list_all_length cinv_def)
  moreover have "thread_inv shape dirs ndirs ndim x (nat a) (c_y s) (c_threads s ! nat a)"
    using c i by (simp add: cinv_def)
  ultimately have "link_ok shape dirs ndim x (c_y s) (nat a) dr"
    using i dr by (simp add: thread_inv_def)
  then show ?thesis using b nb i by (simp add: link_ok_def)
qed

lemma sametree_sym: "sametree y a b \<Longrightarrow> sametree y b a"
  by (auto simp: sametree_def)

lemma done_complete:
  assumes c: "cinv shape dirs ndirs ndim x s" and d: "connect_done s"
    and a: "active x a" and r: "is_root_of (c_y s) a r"
  shows "(a, b) \<in> conn shape dirs ndirs ndim x \<Longrightarrow> is_root_of (c_y s) b r"
  unfolding conn_def
proof (induction rule: rtrancl_induct)
  case base
  then show ?case using r by simp
next
  case (step b c')
  have f: "forest x (c_y s)" using c by (simp add: cinv_def)
  have ab: "active x b" using conn_active[OF _ a] step(1) by (simp add: conn_def)
  have "sametree (c_y s) b c'"
    using step(2) done_link[OF c d] sametree_sym by auto
  then show ?case using sametree_root[OF f ab _ step.IH] by simp
qed

lemma done_root_min:
  assumes c: "cinv shape dirs ndirs ndim x s" and d: "connect_done s"
    and a: "active x a" and r: "is_root_of (c_y s) a r"
  shows "r = comp_min shape dirs ndirs ndim x a"
proof -
  let ?S = "{b. (a, b) \<in> conn shape dirs ndirs ndim x \<and> active x b}"
  have f: "forest x (c_y s)" and snd: "par (c_y s) \<subseteq> conn shape dirs ndirs ndim x"
    using c by (auto simp: cinv_def)
  have "?S \<subseteq> {0..<int (length x)}" by (auto simp: active_def)
  then have fin: "finite ?S" using finite_subset by blast
  have ar: "(a, r) \<in> (par (c_y s))\<^sup>*" using r by (simp add: is_root_of_def)
  have rin: "r \<in> ?S" using anc_conn[OF snd ar] anc_active[OF f ar a] by simp
  have "\<And>b. b \<in> ?S \<Longrightarrow> r \<le> b"
  proof -
    fix b assume "b \<in> ?S"
    then have b: "(a, b) \<in> conn shape dirs ndirs ndim x" "active x b" by auto
    have "is_root_of (c_y s) b r" using done_complete[OF c d a r b(1)] .
    then show "r \<le> b" using anc_active[OF f _ b(2)] by (simp add: is_root_of_def)
  qed
  then have "Min ?S = r" using fin rin by (intro Min_eqI) auto
  then show ?thesis by (simp add: comp_min_def)
qed

subsection \<open>The union tie-break\<close>






lemma count_list_replicate_eq: "count_list (replicate n a) b = (if a = b then n else 0)"
  by (induction n) auto


subsection \<open>The count kernel and the labels kernel\<close>

lemma kinv_init:
  assumes "forest x y0"
  shows "kinv x y0 (count_init y0)"
proof -
  have "length y0 = length x" using assms by (simp add: forest_def)
  then show ?thesis using assms
    by (auto simp: kinv_def count_init_def kthread_inv_def)
qed

lemma same_roots_int:
  assumes "\<forall>c<length x. (y ! c = int c) = (y0 ! c = int c)" "active x a"
  shows "(y ! nat a = a) = (y0 ! nat a = a)"
proof -
  have "nat a < length x" "int (nat a) = a" using assms(2) by (auto simp: active_def)
  then show ?thesis using assms(1) by metis
qed

text \<open>The effect of one step of thread \<open>i\<close> on the buffer, the counter and the thread.\<close>

lemma count_thread_step_inv:
  assumes f0: "forest x y0" and f: "forest x y"
    and rt: "\<forall>c<length x. (y ! c = int c) = (y0 ! c = int c)"
    and sub: "par y \<subseteq> (par y0)\<^sup>*"
    and i: "i < length x"
    and ti: "kthread_inv x y0 i y t"
    and st: "count_thread_step i y c t = (y', c', t')"
  shows "forest x y' \<and> (\<forall>c<length x. (y' ! c = int c) = (y0 ! c = int c))
       \<and> par y' \<subseteq> (par y0)\<^sup>* \<and> kthread_inv x y0 i y' t'
       \<and> (\<forall>c<length x. c \<noteq> i \<longrightarrow> y' ! c = y ! c)
       \<and> c' = (if k_pc t \<noteq> K_done \<and> k_pc t' = K_done \<and> y0 ! i = int i then c + 1 else c)
       \<and> (k_pc t = K_done \<longrightarrow> k_pc t' = K_done)
       \<and> (k_pc t \<noteq> K_done \<longrightarrow> kmeasure (length x) t' < kmeasure (length x) t)"
proof (cases "k_pc t")
  case K_start
  have "y ! i < 0 \<Longrightarrow> x ! i = 0" using f i unfolding forest_def by (metis not_le)
  moreover have "\<not> y ! i < 0 \<Longrightarrow> x ! i \<noteq> 0" using f i unfolding forest_def by force
  ultimately show ?thesis using K_start st f rt sub i
    by (auto simp: kthread_inv_def kmeasure_def split: if_splits)
next
  case K_find
  then have ij: "(int i, k_j t) \<in> (par y0)\<^sup>*" and xi: "x ! i \<noteq> 0"
    using ti by (auto simp: kthread_inv_def)
  have "active x (int i)" using i xi by (simp add: active_def)
  then have aj: "active x (k_j t)" using anc_active[OF f0 ij] by simp
  then have "(y ! nat (k_j t) = k_j t) = (y0 ! nat (k_j t) = k_j t)"
    using same_roots_int[OF rt] by simp
  then show ?thesis using K_find st f rt sub ij xi
    by (auto simp: kthread_inv_def kmeasure_def split: if_splits)
next
  case K_step
  then have ij: "(int i, k_j t) \<in> (par y0)\<^sup>*" and xi: "x ! i \<noteq> 0"
    and nr: "y0 ! nat (k_j t) \<noteq> k_j t"
    using ti by (auto simp: kthread_inv_def)
  have "active x (int i)" using i xi by (simp add: active_def)
  then have aj: "active x (k_j t)" using anc_active[OF f0 ij] by simp
  then have nr': "y ! nat (k_j t) \<noteq> k_j t" using same_roots_int[OF rt] nr by simp
  have lt: "nat (y ! nat (k_j t)) < nat (k_j t)" using nonroot_less[OF f aj nr'] .
  have "(k_j t, y ! nat (k_j t)) \<in> par y"
    using forest_active[OF f aj] aj f by (intro par_step) (auto simp: active_def forest_def)
  then have "(k_j t, y ! nat (k_j t)) \<in> (par y0)\<^sup>*" using sub by blast
  then have "(int i, y ! nat (k_j t)) \<in> (par y0)\<^sup>*" using ij by (meson rtrancl_trans)
  then show ?thesis using K_step st f rt sub xi lt
    by (auto simp: kthread_inv_def kmeasure_def)
next
  case K_write
  then have ij: "(int i, k_j t) \<in> (par y0)\<^sup>*" and xi: "x ! i \<noteq> 0"
    and r0: "y0 ! nat (k_j t) = k_j t"
    using ti by (auto simp: kthread_inv_def)
  have ai: "active x (int i)" using i xi by (simp add: active_def)
  then have aj: "active x (k_j t)" "k_j t \<le> int i" using anc_active[OF f0 ij] by auto
  show ?thesis
  proof (cases "k_j t = int i")
    case True
    then have e: "y' = y" "c' = c + 1" "t' = t\<lparr>k_pc := K_done\<rparr>" using st K_write by auto
    have "y0 ! i = int i" using r0 True by simp
    moreover have "y ! i = int i" using rt i calculation by simp
    ultimately show ?thesis using e f rt sub K_write
      by (auto simp: kthread_inv_def kmeasure_def)
  next
    case False
    then have e: "y' = y[i := k_j t]" "c' = c" "t' = t\<lparr>k_pc := K_done\<rparr>"
      using st K_write by auto
    have nr: "y0 ! i \<noteq> int i"
    proof
      assume "y0 ! i = int i"
      then have "k_j t = int i" using root_stays[OF ij] by simp
      then show False using False by simp
    qed
    have fo: "forest x y'" using forest_update[OF f ai aj(1) aj(2)] e by simp
    have len: "length y = length x" using f by (simp add: forest_def)
    have rt': "\<forall>c<length x. (y' ! c = int c) = (y0 ! c = int c)"
    proof (intro allI impI)
      fix ca assume ca: "ca < length x"
      show "(y' ! ca = int ca) = (y0 ! ca = int ca)"
      proof (cases "ca = i")
        case True
        then show ?thesis using e nr False len i by simp
      next
        case False
        then show ?thesis using e rt ca by simp
      qed
    qed
    have "par y' \<subseteq> insert (int i, k_j t) (par y)" using par_update_sub e by simp
    then have sub': "par y' \<subseteq> (par y0)\<^sup>*" using sub ij by auto
    have "y' ! i = k_j t" using e i len by simp
    then have ti': "kthread_inv x y0 i y' t'" using e r0 by (simp add: kthread_inv_def)
    have oth: "\<forall>c<length x. c \<noteq> i \<longrightarrow> y' ! c = y ! c" using e by simp
    show ?thesis using fo rt' sub' ti' oth e nr K_write by (simp add: kmeasure_def)
  qed
next
  case K_done
  then show ?thesis using st f rt sub ti by (auto simp: kthread_inv_def)
qed

lemma kthread_inv_cong: "y' ! j = y ! j \<Longrightarrow> kthread_inv x y0 j y' t = kthread_inv x y0 j y t"
  by (simp add: kthread_inv_def split: kpc.splits)

lemma count_step_unfold:
  assumes "i < length (k_threads s)"
    and "count_thread_step i (k_y s) (k_count s) (k_threads s ! i) = (y', c', t')"
  shows "count_step i s = \<lparr>k_y = y', k_count = c', k_threads = (k_threads s)[i := t']\<rparr>"
  using assms by (simp add: count_step_def del: count_thread_step.simps)

lemma card_done_roots:
  assumes len: "length ts = n" and i: "i < n"
    and pres: "k_pc (ts ! i) = K_done \<longrightarrow> k_pc t' = K_done"
  shows "int (card {j. j < n \<and> k_pc (ts[i := t'] ! j) = K_done \<and> R j})
       = (if k_pc (ts ! i) \<noteq> K_done \<and> k_pc t' = K_done \<and> R i
          then int (card {j. j < n \<and> k_pc (ts ! j) = K_done \<and> R j}) + 1
          else int (card {j. j < n \<and> k_pc (ts ! j) = K_done \<and> R j}))"
proof (cases "k_pc (ts ! i) \<noteq> K_done \<and> k_pc t' = K_done \<and> R i")
  case True
  have "{j. j < n \<and> k_pc (ts[i := t'] ! j) = K_done \<and> R j}
      = insert i {j. j < n \<and> k_pc (ts ! j) = K_done \<and> R j}"
    using True len i by (auto simp: nth_list_update)
  moreover have "i \<notin> {j. j < n \<and> k_pc (ts ! j) = K_done \<and> R j}" using True by simp
  moreover have "finite {j. j < n \<and> k_pc (ts ! j) = K_done \<and> R j}" by simp
  ultimately show ?thesis using True by simp
next
  case False
  have "{j. j < n \<and> k_pc (ts[i := t'] ! j) = K_done \<and> R j}
      = {j. j < n \<and> k_pc (ts ! j) = K_done \<and> R j}"
    using False len i pres by (auto simp: nth_list_update)
  then show ?thesis using False by simp
qed

lemma kinv_step:
  assumes f0: "forest x y0" and k: "kinv x y0 s"
  shows "kinv x y0 (count_step i s)"
proof (cases "i < length (k_threads s)")
  case False
  then show ?thesis using k by (simp add: count_step_def)
next
  case True
  have len: "length (k_threads s) = length x" and f: "forest x (k_y s)"
    and rt: "\<forall>c<length x. (k_y s ! c = int c) = (y0 ! c = int c)"
    and sub: "par (k_y s) \<subseteq> (par y0)\<^sup>*"
    and tis: "\<forall>j<length x. kthread_inv x y0 j (k_y s) (k_threads s ! j)"
    and cnt: "k_count s = int (card {j. j < length x \<and> k_pc (k_threads s ! j) = K_done \<and> y0 ! j = int j})"
    using k by (auto simp: kinv_def)
  have i: "i < length x" using True len by simp
  obtain y' c' t' where st:
    "count_thread_step i (k_y s) (k_count s) (k_threads s ! i) = (y', c', t')"
    by (cases "count_thread_step i (k_y s) (k_count s) (k_threads s ! i)")
  have s': "count_step i s = \<lparr>k_y = y', k_count = c', k_threads = (k_threads s)[i := t']\<rparr>"
    using count_step_unfold[OF True st] .
  from count_thread_step_inv[OF f0 f rt sub i _ st] tis i
  have r: "forest x y'" "\<forall>c<length x. (y' ! c = int c) = (y0 ! c = int c)"
    "par y' \<subseteq> (par y0)\<^sup>*" "kthread_inv x y0 i y' t'"
    "c' = (if k_pc (k_threads s ! i) \<noteq> K_done \<and> k_pc t' = K_done \<and> y0 ! i = int i
           then k_count s + 1 else k_count s)"
    "k_pc (k_threads s ! i) = K_done \<longrightarrow> k_pc t' = K_done"
    by auto
  from count_thread_step_inv[OF f0 f rt sub i _ st] tis i
  have oth: "\<forall>c<length x. c \<noteq> i \<longrightarrow> y' ! c = k_y s ! c" by blast
  have tis': "\<forall>j<length x. kthread_inv x y0 j y' ((k_threads s)[i := t'] ! j)"
  proof (intro allI impI)
    fix j assume j: "j < length x"
    show "kthread_inv x y0 j y' ((k_threads s)[i := t'] ! j)"
    proof (cases "j = i")
      case True then show ?thesis using r(4) len i by simp
    next
      case False
      then have "y' ! j = k_y s ! j" using oth j by simp
      then show ?thesis using kthread_inv_cong[of y' j "k_y s"] tis j False by simp
    qed
  qed
  have cnt': "c' = int (card {j. j < length x \<and> k_pc ((k_threads s)[i := t'] ! j) = K_done \<and> y0 ! j = int j})"
    using card_done_roots[OF len i r(6), of "\<lambda>j. y0 ! j = int j"] r(5) cnt by simp
  show ?thesis using r(1,2,3) tis' cnt' len by (simp add: s' kinv_def)
qed

lemma kinv_run:
  assumes f0: "forest x y0"
  shows "kinv x y0 s \<Longrightarrow> kinv x y0 (fold count_step sched s)"
  by (induction sched arbitrary: s) (auto intro: kinv_step[OF f0])

lemma count_step_measure_dec:
  assumes f0: "forest x y0" and k: "kinv x y0 s" and i: "i < length x"
  shows "kmeasure (length x) (k_threads (count_step i s) ! i)
         \<le> kmeasure (length x) (k_threads s ! i) - 1"
proof -
  have len: "length (k_threads s) = length x" and f: "forest x (k_y s)"
    and rt: "\<forall>c<length x. (k_y s ! c = int c) = (y0 ! c = int c)"
    and sub: "par (k_y s) \<subseteq> (par y0)\<^sup>*"
    and ti: "kthread_inv x y0 i (k_y s) (k_threads s ! i)"
    using k i by (auto simp: kinv_def)
  obtain y' c' t' where st:
    "count_thread_step i (k_y s) (k_count s) (k_threads s ! i) = (y', c', t')"
    by (cases "count_thread_step i (k_y s) (k_count s) (k_threads s ! i)")
  have s': "k_threads (count_step i s) ! i = t'"
    using count_step_unfold[OF _ st] i len by simp
  from count_thread_step_inv[OF f0 f rt sub i ti st]
  have d: "k_pc (k_threads s ! i) = K_done \<longrightarrow> k_pc t' = K_done"
    "k_pc (k_threads s ! i) \<noteq> K_done \<longrightarrow> kmeasure (length x) t' < kmeasure (length x) (k_threads s ! i)"
    by auto
  show ?thesis
  proof (cases "k_pc (k_threads s ! i) = K_done")
    case True
    then show ?thesis using d s' by (simp add: kmeasure_def)
  next
    case False
    then show ?thesis using d s' by simp
  qed
qed

lemma count_step_other: "t \<noteq> i \<Longrightarrow> k_threads (count_step t s) ! i = k_threads s ! i"
  by (simp add: count_step_def split: prod.splits del: count_thread_step.simps)

lemma kmeasure_zero: "kmeasure n t = 0 \<longleftrightarrow> k_pc t = K_done"
  by (cases "k_pc t") (auto simp: kmeasure_def)

lemma count_completes:
  assumes f0: "forest x y0" and fr: "fair (length x) (count_bound (length x)) sched"
  shows "count_done (fold count_step sched (count_init y0))"
proof -
  let ?fin = "fold count_step sched (count_init y0)"
  have k0: "kinv x y0 (count_init y0)" using kinv_init[OF f0] .
  have k: "kinv x y0 ?fin" by (rule kinv_run[OF f0 k0])
  have len: "length (k_threads ?fin) = length x" using k by (simp add: kinv_def)
  have ly: "length y0 = length x" using f0 by (simp add: forest_def)
  have "\<forall>i<length x. k_pc (k_threads ?fin ! i) = K_done"
  proof (intro allI impI)
    fix i assume i: "i < length x"
    have m: "kmeasure (length x) (k_threads ?fin ! i)
          \<le> kmeasure (length x) (k_threads (count_init y0) ! i) - count_list sched i"
    proof (rule fold_measure[where I = "kinv x y0"
          and m = "\<lambda>s. kmeasure (length x) (k_threads s ! i)"])
      show "\<And>s t. kinv x y0 s \<Longrightarrow> kinv x y0 (count_step t s)" by (rule kinv_step[OF f0])
      show "\<And>s. kinv x y0 s \<Longrightarrow> kmeasure (length x) (k_threads (count_step i s) ! i)
              \<le> kmeasure (length x) (k_threads s ! i) - 1"
        by (rule count_step_measure_dec[OF f0 _ i])
      show "\<And>s t. kinv x y0 s \<Longrightarrow> t \<noteq> i \<Longrightarrow> kmeasure (length x) (k_threads (count_step t s) ! i)
              \<le> kmeasure (length x) (k_threads s ! i)"
        by (simp add: count_step_other)
      show "kinv x y0 (count_init y0)" by (rule k0)
    qed
    have "kmeasure (length x) (k_threads (count_init y0) ! i) = count_bound (length x)"
      using i ly by (simp add: count_init_def kmeasure_def count_bound_def)
    moreover have "count_bound (length x) \<le> count_list sched i" using fr i by (simp add: fair_def)
    ultimately have "kmeasure (length x) (k_threads ?fin ! i) = 0" using m by simp
    then show "k_pc (k_threads ?fin ! i) = K_done" by (simp add: kmeasure_zero)
  qed
  then show ?thesis using len by (simp add: count_done_def list_all_length)
qed

text \<open>When the count launch has finished, every active cell holds the root of its tree.\<close>

lemma count_done_result:
  assumes f0: "forest x y0" and k: "kinv x y0 s" and d: "count_done s"
  shows "length (k_y s) = length x
       \<and> (\<forall>i<length x. x ! i = 0 \<longrightarrow> k_y s ! i = - 1)
       \<and> (\<forall>i<length x. x ! i \<noteq> 0 \<longrightarrow> is_root_of y0 (int i) (k_y s ! i))
       \<and> k_count s = int (card {i. i < length x \<and> k_y s ! i = int i})"
proof -
  have len: "length (k_threads s) = length x" and f: "forest x (k_y s)"
    and rt: "\<forall>c<length x. (k_y s ! c = int c) = (y0 ! c = int c)"
    and sub: "par (k_y s) \<subseteq> (par y0)\<^sup>*"
    and tis: "\<forall>j<length x. kthread_inv x y0 j (k_y s) (k_threads s ! j)"
    and cnt: "k_count s = int (card {j. j < length x \<and> k_pc (k_threads s ! j) = K_done \<and> y0 ! j = int j})"
    using k by (auto simp: kinv_def)
  have dn: "\<forall>j<length x. k_pc (k_threads s ! j) = K_done"
    using d len by (simp add: count_done_def list_all_length)
  have a: "\<forall>i<length x. x ! i = 0 \<longrightarrow> k_y s ! i = - 1" using f by (auto simp: forest_def)
  have b: "\<forall>i<length x. x ! i \<noteq> 0 \<longrightarrow> is_root_of y0 (int i) (k_y s ! i)"
  proof (intro allI impI)
    fix i assume i: "i < length x" and xi: "x ! i \<noteq> 0"
    have ai: "active x (int i)" using i xi by (simp add: active_def)
    have "(int i, k_y s ! i) \<in> par (k_y s)"
      using forest_active[OF f ai] f i by (auto simp: par_def forest_def)
    then have p: "(int i, k_y s ! i) \<in> (par y0)\<^sup>*" using sub by blast
    have "y0 ! nat (k_y s ! i) = k_y s ! i"
      using tis dn i xi by (auto simp: kthread_inv_def)
    then show "is_root_of y0 (int i) (k_y s ! i)" using p by (simp add: is_root_of_def)
  qed
  have "{j. j < length x \<and> k_pc (k_threads s ! j) = K_done \<and> y0 ! j = int j}
      = {i. i < length x \<and> k_y s ! i = int i}" using dn rt by auto
  then show ?thesis using a b cnt f by (simp add: forest_def)
qed

lemma linv_init:
  assumes "0 \<le> maxlabel"
  shows "linv y maxlabel (labels_init y maxlabel)"
proof -
  have "\<And>i. \<not> slot_owner y (replicate (length y) \<lparr>l_pc = L_start, l_j = 0\<rparr>) i"
    by (auto simp: slot_owner_def)
  then show ?thesis by (simp add: linv_def labels_init_def)
qed

lemma labels_step_unfold:
  assumes "i < length (l_threads s)"
    and "labels_thread_step y i (l_labels s) (l_count s) (l_threads s ! i) = (ls', c', t')"
  shows "labels_step y i s = \<lparr>l_labels = ls', l_count = c', l_threads = (l_threads s)[i := t']\<rparr>"
  using assms by (simp add: labels_step_def del: labels_thread_step.simps)

lemma slot_owner_other:
  "j \<noteq> i \<Longrightarrow> slot_owner y (ts[i := t']) j = slot_owner y ts j"
  by (simp add: slot_owner_def)

lemma slot_owner_same_pc:
  assumes "i < length ts" "length ts = length y"
    and "(l_pc t' = L_write \<or> l_pc t' = L_done) = (l_pc (ts ! i) = L_write \<or> l_pc (ts ! i) = L_done) \<or> y ! i \<noteq> int i"
  shows "slot_owner y (ts[i := t']) = slot_owner y ts"
proof
  fix j show "slot_owner y (ts[i := t']) j = slot_owner y ts j"
    using assms by (cases "j = i") (auto simp: slot_owner_def)
qed

lemma slot_owner_finite: "finite {i. slot_owner y ts i}"
proof -
  have "{i. slot_owner y ts i} \<subseteq> {..<length y}" by (auto simp: slot_owner_def)
  then show ?thesis using finite_subset by blast
qed

lemma slot_owner_card:
  "card {i. slot_owner y ts i} \<le> card {i. i < length y \<and> y ! i = int i}"
  by (rule card_mono) (auto simp: slot_owner_def)

lemma upd_all:
  assumes "\<forall>j<n. P (ts ! j) \<longrightarrow> Q j" and "P t' \<longrightarrow> Q i"
  shows "\<forall>j<n. P (ts[i := t'] ! j) \<longrightarrow> Q j"
proof (intro allI impI)
  fix j assume j: "j < n" and p: "P (ts[i := t'] ! j)"
  show "Q j"
  proof (cases "j = i \<and> i < length ts")
    case True
    then show ?thesis using p assms(2) by simp
  next
    case False
    then have "ts[i := t'] ! j = ts ! j" by (cases "j = i") (auto simp: list_update_beyond)
    then show ?thesis using p assms(1) j by simp
  qed
qed

lemma linv_step:
  assumes m: "maxlabel = int (card {i. i < length y \<and> y ! i = int i})"
    and l: "linv y maxlabel s"
  shows "linv y maxlabel (labels_step y i s)"
proof (cases "i < length (l_threads s)")
  case False
  then show ?thesis using l by (simp add: labels_step_def)
next
  case True
  let ?ts = "l_threads s"
  let ?t = "?ts ! i"
  have len: "length (l_labels s) = nat maxlabel" and lt: "length ?ts = length y"
    and rt: "\<forall>j<length y. l_pc (?ts ! j) = L_add \<or> l_pc (?ts ! j) = L_write \<longrightarrow> y ! j = int j"
    and cnt: "l_count s = int (card {j. slot_owner y ?ts j})"
    and rng: "\<forall>j. slot_owner y ?ts j \<longrightarrow> 0 \<le> l_j (?ts ! j) \<and> l_j (?ts ! j) < l_count s"
    and inj: "inj_on (\<lambda>j. l_j (?ts ! j)) {j. slot_owner y ?ts j}"
    and wr: "\<forall>j. slot_owner y ?ts j \<and> l_pc (?ts ! j) = L_done
                \<longrightarrow> l_labels s ! nat (l_j (?ts ! j)) = int j"
    using l by (auto simp: linv_def)
  have i: "i < length y" using True lt by simp
  obtain ls' c' t' where st:
    "labels_thread_step y i (l_labels s) (l_count s) ?t = (ls', c', t')"
    by (cases "labels_thread_step y i (l_labels s) (l_count s) ?t")
  have s': "labels_step y i s = \<lparr>l_labels = ls', l_count = c', l_threads = ?ts[i := t']\<rparr>"
    using labels_step_unfold[OF True st] .
  have nth': "\<And>j. j \<noteq> i \<Longrightarrow> ?ts[i := t'] ! j = ?ts ! j" by simp
  have nthi: "?ts[i := t'] ! i = t'" using True by simp
  show ?thesis
  proof (cases "l_pc ?t")
    case L_start
    then have e: "ls' = l_labels s" "c' = l_count s" "l_j t' = l_j ?t"
      "l_pc t' = L_done \<and> y ! i \<noteq> int i \<or> l_pc t' = L_add \<and> y ! i = int i"
      using st by (auto split: if_splits)
    have so: "slot_owner y (?ts[i := t']) = slot_owner y ?ts"
      using e(4) L_start True lt by (intro slot_owner_same_pc) auto
    have ni: "\<not> slot_owner y ?ts i" using L_start by (simp add: slot_owner_def)
    have lj: "\<And>j. slot_owner y ?ts j \<Longrightarrow> ?ts[i := t'] ! j = ?ts ! j" using ni nth' by metis
    have inj': "inj_on (\<lambda>j. l_j (?ts[i := t'] ! j)) {j. slot_owner y ?ts j}"
      using inj lj by (simp add: inj_on_def)
    have rt': "\<forall>j<length y. l_pc (?ts[i := t'] ! j) = L_add \<or> l_pc (?ts[i := t'] ! j) = L_write
                 \<longrightarrow> y ! j = int j"
      using e(4) by (intro upd_all[OF rt]) auto
    have rng': "\<forall>j. slot_owner y ?ts j
                  \<longrightarrow> 0 \<le> l_j (?ts[i := t'] ! j) \<and> l_j (?ts[i := t'] ! j) < l_count s"
      using rng lj by auto
    have wr': "\<forall>j. slot_owner y ?ts j \<and> l_pc (?ts[i := t'] ! j) = L_done
                \<longrightarrow> l_labels s ! nat (l_j (?ts[i := t'] ! j)) = int j"
      using wr lj by auto
    show ?thesis using len lt rt' cnt rng' inj' wr'
      by (simp add: s' linv_def so e)
  next
    case L_add
    then have e: "ls' = l_labels s" "c' = l_count s + 1" "t' = \<lparr>l_pc = L_write, l_j = l_count s\<rparr>"
      using st by auto
    have ri: "y ! i = int i" using rt i L_add by simp
    have ni: "i \<notin> {j. slot_owner y ?ts j}" using L_add by (simp add: slot_owner_def)
    have soi: "slot_owner y (?ts[i := t']) i" using e(3) ri i True by (simp add: slot_owner_def)
    have so: "{j. slot_owner y (?ts[i := t']) j} = insert i {j. slot_owner y ?ts j}"
    proof (rule set_eqI)
      fix j show "j \<in> {j. slot_owner y (?ts[i := t']) j} \<longleftrightarrow> j \<in> insert i {j. slot_owner y ?ts j}"
        using soi slot_owner_other[of j i y ?ts t'] by (cases "j = i") auto
    qed
    have cnt': "c' = int (card {j. slot_owner y (?ts[i := t']) j})"
      using so ni slot_owner_finite[of y ?ts] cnt e(2) by simp
    have lj: "\<And>j. slot_owner y ?ts j \<Longrightarrow> ?ts[i := t'] ! j = ?ts ! j" using ni nth' by (metis mem_Collect_eq)
    have rng': "\<forall>j. slot_owner y (?ts[i := t']) j
                  \<longrightarrow> 0 \<le> l_j (?ts[i := t'] ! j) \<and> l_j (?ts[i := t'] ! j) < c'"
    proof (intro allI impI)
      fix j assume "slot_owner y (?ts[i := t']) j"
      then have "j = i \<or> slot_owner y ?ts j" using so by auto
      then show "0 \<le> l_j (?ts[i := t'] ! j) \<and> l_j (?ts[i := t'] ! j) < c'"
      proof
        assume "j = i"
        then show ?thesis using nthi e cnt by simp
      next
        assume o: "slot_owner y ?ts j"
        then show ?thesis using rng lj[OF o] e(2) by auto
      qed
    qed
    have inj': "inj_on (\<lambda>j. l_j (?ts[i := t'] ! j)) (insert i {j. slot_owner y ?ts j})"
    proof (rule inj_onI)
      fix a b
      assume a: "a \<in> insert i {j. slot_owner y ?ts j}" and b: "b \<in> insert i {j. slot_owner y ?ts j}"
        and eq: "l_j (?ts[i := t'] ! a) = l_j (?ts[i := t'] ! b)"
      have v: "\<And>j. slot_owner y ?ts j \<Longrightarrow> l_j (?ts[i := t'] ! j) < l_count s"
        using rng lj by auto
      have vi: "l_j (?ts[i := t'] ! i) = l_count s" using nthi e by simp
      show "a = b"
      proof (cases "a = i")
        case ai: True
        show ?thesis
        proof (cases "b = i")
          case True then show ?thesis using ai by simp
        next
          case False
          then have "slot_owner y ?ts b" using b by auto
          then have "l_j (?ts[i := t'] ! b) < l_count s" by (rule v)
          then show ?thesis using eq ai vi by simp
        qed
      next
        case an: False
        then have oa: "slot_owner y ?ts a" using a by auto
        show ?thesis
        proof (cases "b = i")
          case True
          then show ?thesis using eq vi v[OF oa] by simp
        next
          case False
          then have ob: "slot_owner y ?ts b" using b by auto
          then show ?thesis using eq inj oa lj by (auto simp: inj_on_def)
        qed
      qed
    qed
    have wr': "\<forall>j. slot_owner y (?ts[i := t']) j \<and> l_pc (?ts[i := t'] ! j) = L_done
                \<longrightarrow> ls' ! nat (l_j (?ts[i := t'] ! j)) = int j"
    proof (intro allI impI)
      fix j assume a: "slot_owner y (?ts[i := t']) j \<and> l_pc (?ts[i := t'] ! j) = L_done"
      then have "j \<noteq> i" using nthi e by auto
      then show "ls' ! nat (l_j (?ts[i := t'] ! j)) = int j"
        using a wr e(1) slot_owner_other[of j i y ?ts t'] by simp
    qed
    have rt': "\<forall>j<length y. l_pc (?ts[i := t'] ! j) = L_add \<or> l_pc (?ts[i := t'] ! j) = L_write
                 \<longrightarrow> y ! j = int j"
      using ri by (intro upd_all[OF rt]) auto
    show ?thesis using len lt rt' cnt' rng' inj' wr' e(1)
      by (simp add: s' linv_def so)
  next
    case L_write
    then have e: "ls' = (l_labels s)[nat (l_j ?t) := int i]" "c' = l_count s"
      "t' = ?t\<lparr>l_pc := L_done\<rparr>" using st by auto
    have ri: "y ! i = int i" using rt i L_write by simp
    have oi: "slot_owner y ?ts i" using ri i L_write by (simp add: slot_owner_def)
    have so: "slot_owner y (?ts[i := t']) = slot_owner y ?ts"
      using e(3) L_write True lt by (intro slot_owner_same_pc) auto
    have lj: "\<And>j. l_j (?ts[i := t'] ! j) = l_j (?ts ! j)"
    proof -
      fix j show "l_j (?ts[i := t'] ! j) = l_j (?ts ! j)"
        using e(3) True by (cases "j = i") auto
    qed
    have "l_count s \<le> maxlabel" using cnt m slot_owner_card[of y ?ts] by simp
    then have sl: "nat (l_j ?t) < length (l_labels s)" "0 \<le> l_j ?t"
      using rng oi len by auto
    have wr': "\<forall>j. slot_owner y ?ts j \<and> l_pc (?ts[i := t'] ! j) = L_done
                \<longrightarrow> ls' ! nat (l_j (?ts ! j)) = int j"
    proof (intro allI impI)
      fix j assume a: "slot_owner y ?ts j \<and> l_pc (?ts[i := t'] ! j) = L_done"
      show "ls' ! nat (l_j (?ts ! j)) = int j"
      proof (cases "j = i")
        case True
        then show ?thesis using e(1) sl by simp
      next
        case False
        then have "l_j (?ts ! j) \<noteq> l_j ?t" using inj a oi by (auto simp: inj_on_def)
        moreover have "0 \<le> l_j (?ts ! j)" using rng a by simp
        ultimately have "nat (l_j (?ts ! j)) \<noteq> nat (l_j ?t)" using sl by simp
        then show ?thesis using e(1) wr a False by simp
      qed
    qed
    have rt': "\<forall>j<length y. l_pc (?ts[i := t'] ! j) = L_add \<or> l_pc (?ts[i := t'] ! j) = L_write
                 \<longrightarrow> y ! j = int j"
      using e(3) by (intro upd_all[OF rt]) auto
    show ?thesis using len lt rt' cnt rng inj wr' e(1,2)
      by (simp add: s' linv_def so lj)
  next
    case L_done
    then have "ls' = l_labels s" "c' = l_count s" "t' = ?t" using st by auto
    then have "labels_step y i s = s" using True by (simp add: s')
    then show ?thesis using l by simp
  qed
qed

lemma linv_run:
  assumes m: "maxlabel = int (card {i. i < length y \<and> y ! i = int i})"
  shows "linv y maxlabel s \<Longrightarrow> linv y maxlabel (fold (labels_step y) sched s)"
  by (induction sched arbitrary: s) (auto intro: linv_step[OF m])

lemma labels_thread_step_measure:
  assumes "labels_thread_step y i ls c t = (ls', c', t')"
  shows "lmeasure t' \<le> lmeasure t - 1"
  using assms by (cases "l_pc t") (auto simp: lmeasure_def split: if_splits)

lemma labels_step_measure_dec:
  assumes "length (l_threads s) = length y" "i < length y"
  shows "lmeasure (l_threads (labels_step y i s) ! i) \<le> lmeasure (l_threads s ! i) - 1"
proof -
  obtain ls' c' t' where st:
    "labels_thread_step y i (l_labels s) (l_count s) (l_threads s ! i) = (ls', c', t')"
    by (cases "labels_thread_step y i (l_labels s) (l_count s) (l_threads s ! i)")
  have "l_threads (labels_step y i s) ! i = t'"
    using labels_step_unfold[OF _ st] assms by simp
  then show ?thesis using labels_thread_step_measure[OF st] by simp
qed

lemma labels_step_other: "t \<noteq> i \<Longrightarrow> l_threads (labels_step y t s) ! i = l_threads s ! i"
  by (simp add: labels_step_def split: prod.splits del: labels_thread_step.simps)

lemma labels_step_length: "length (l_threads (labels_step y t s)) = length (l_threads s)"
  by (simp add: labels_step_def split: prod.splits del: labels_thread_step.simps)

lemma labels_run_length:
  "length (l_threads (fold (labels_step y) sched s)) = length (l_threads s)"
  by (induction sched arbitrary: s) (simp_all add: labels_step_length)

lemma lmeasure_zero: "lmeasure t = 0 \<longleftrightarrow> l_pc t = L_done"
  by (cases "l_pc t") (auto simp: lmeasure_def)

lemma labels_completes:
  assumes fr: "fair (length y) labels_bound sched"
  shows "labels_done (fold (labels_step y) sched (labels_init y maxlabel))"
proof -
  let ?fin = "fold (labels_step y) sched (labels_init y maxlabel)"
  let ?I = "\<lambda>s. length (l_threads s) = length y"
  have I0: "?I (labels_init y maxlabel)" by (simp add: labels_init_def)
  have len: "?I ?fin" by (simp add: labels_run_length labels_init_def)
  have "\<forall>i<length y. l_pc (l_threads ?fin ! i) = L_done"
  proof (intro allI impI)
    fix i assume i: "i < length y"
    have m: "lmeasure (l_threads ?fin ! i)
          \<le> lmeasure (l_threads (labels_init y maxlabel) ! i) - count_list sched i"
    proof (rule fold_measure[where I = ?I and m = "\<lambda>s. lmeasure (l_threads s ! i)"])
      show "\<And>s t. ?I s \<Longrightarrow> ?I (labels_step y t s)" by (simp add: labels_step_length)
      show "\<And>s. ?I s \<Longrightarrow> lmeasure (l_threads (labels_step y i s) ! i)
              \<le> lmeasure (l_threads s ! i) - 1"
        by (rule labels_step_measure_dec[OF _ i])
      show "\<And>s t. ?I s \<Longrightarrow> t \<noteq> i \<Longrightarrow> lmeasure (l_threads (labels_step y t s) ! i)
              \<le> lmeasure (l_threads s ! i)"
        by (simp add: labels_step_other)
      show "?I (labels_init y maxlabel)" by (rule I0)
    qed
    have "lmeasure (l_threads (labels_init y maxlabel) ! i) = labels_bound"
      using i by (simp add: labels_init_def lmeasure_def labels_bound_def)
    moreover have "labels_bound \<le> count_list sched i" using fr i by (simp add: fair_def)
    ultimately have "lmeasure (l_threads ?fin ! i) = 0" using m by simp
    then show "l_pc (l_threads ?fin ! i) = L_done" by (simp add: lmeasure_zero)
  qed
  then show ?thesis using len by (simp add: labels_done_def list_all_length)
qed

lemma roots_sorted: "sorted (roots y)"
proof -
  have "sorted (filter (\<lambda>i. y ! i = int i) [0..<length y])" by (rule sorted_wrt_filter) simp
  then show ?thesis unfolding roots_def by (simp add: sorted_map sorted_wrt_map)
qed

lemma roots_mset:
  "mset (roots y) = image_mset int (mset_set {i. i < length y \<and> y ! i = int i})"
proof -
  have "mset (filter (\<lambda>i. y ! i = int i) [0..<length y])
      = filter_mset (\<lambda>i. y ! i = int i) (mset_set {0..<length y})"
    by simp
  also have "\<dots> = mset_set {i \<in> {0..<length y}. y ! i = int i}"
    by (rule filter_mset_mset_set) simp
  also have "{i \<in> {0..<length y}. y ! i = int i} = {i. i < length y \<and> y ! i = int i}" by auto
  finally show ?thesis by (simp add: roots_def)
qed

text \<open>When the labels launch has finished, \<^verbatim>\<open>labels\<close> is a permutation of the roots.\<close>

lemma labels_done_result:
  assumes m: "maxlabel = int (card {i. i < length y \<and> y ! i = int i})"
    and l: "linv y maxlabel s" and d: "labels_done s"
  shows "sort (l_labels s) = roots y"
proof -
  let ?ts = "l_threads s"
  let ?R = "{i. i < length y \<and> y ! i = int i}"
  let ?f = "\<lambda>i. nat (l_j (?ts ! i))"
  have len: "length (l_labels s) = nat maxlabel" and lt: "length ?ts = length y"
    and cnt: "l_count s = int (card {j. slot_owner y ?ts j})"
    and rng: "\<forall>j. slot_owner y ?ts j \<longrightarrow> 0 \<le> l_j (?ts ! j) \<and> l_j (?ts ! j) < l_count s"
    and inj: "inj_on (\<lambda>j. l_j (?ts ! j)) {j. slot_owner y ?ts j}"
    and wr: "\<forall>j. slot_owner y ?ts j \<and> l_pc (?ts ! j) = L_done
                \<longrightarrow> l_labels s ! nat (l_j (?ts ! j)) = int j"
    using l by (auto simp: linv_def)
  have dn: "\<forall>j<length y. l_pc (?ts ! j) = L_done"
    using d lt by (simp add: labels_done_def list_all_length)
  have so: "{j. slot_owner y ?ts j} = ?R" using dn by (auto simp: slot_owner_def)
  have finR: "finite ?R" by simp
  have c: "l_count s = maxlabel" using cnt so m by simp
  have injf: "inj_on ?f ?R"
  proof (rule inj_onI)
    fix a b assume a: "a \<in> ?R" and b: "b \<in> ?R" and e: "?f a = ?f b"
    have "0 \<le> l_j (?ts ! a)" "0 \<le> l_j (?ts ! b)" using rng so a b by auto
    then have "l_j (?ts ! a) = l_j (?ts ! b)" using e by simp
    then show "a = b" using inj so a b by (auto simp: inj_on_def)
  qed
  have sub: "?f ` ?R \<subseteq> {..<nat maxlabel}"
  proof
    fix v assume "v \<in> ?f ` ?R"
    then obtain a where a: "a \<in> ?R" "v = ?f a" by blast
    then have "0 \<le> l_j (?ts ! a) \<and> l_j (?ts ! a) < maxlabel" using rng so c by auto
    then show "v \<in> {..<nat maxlabel}" using a by auto
  qed
  have "card (?f ` ?R) = card ?R" using injf by (rule card_image)
  also have "\<dots> = card {..<nat maxlabel}" using m by simp
  finally have img: "?f ` ?R = {..<nat maxlabel}"
    using sub by (intro card_subset_eq) auto
  have val: "\<And>a. a \<in> ?R \<Longrightarrow> l_labels s ! ?f a = int a"
    using wr so dn by auto
  have "mset (l_labels s) = mset (map (nth (l_labels s)) [0..<length (l_labels s)])"
    by (simp add: map_nth)
  also have "\<dots> = image_mset (nth (l_labels s)) (mset_set {..<nat maxlabel})"
    by (simp add: len mset_upt atLeast0LessThan)
  also have "mset_set {..<nat maxlabel} = image_mset ?f (mset_set ?R)"
    using image_mset_mset_set[OF injf] img by simp
  also have "image_mset (nth (l_labels s)) (image_mset ?f (mset_set ?R))
           = image_mset (\<lambda>a. l_labels s ! ?f a) (mset_set ?R)"
    by (simp add: multiset.map_comp comp_def)
  also have "\<dots> = image_mset int (mset_set ?R)"
    by (rule image_mset_cong) (use val finR in auto)
  finally have "mset (l_labels s) = mset (roots y)" by (simp add: roots_mset)
  then show ?thesis using roots_sorted by (intro properties_for_sort) auto
qed

subsection \<open>The pipeline of _label\<close>

lemma u_kernel_connect_result:
  assumes g: "grid_ok shape ndim (length x)"
    and r: "u_kernel_connect sched shape dirs ndirs ndim (u_kernel_init x) = Some y"
  shows "forest x y \<and> (\<forall>a r. active x a \<longrightarrow> is_root_of y a r \<longrightarrow> r = comp_min shape dirs ndirs ndim x a)"
proof -
  let ?fin = "connect_run shape dirs ndirs ndim sched (connect_init (u_kernel_init x))"
  have d: "connect_done ?fin" and y: "y = c_y ?fin"
    using r by (auto simp: u_kernel_connect_def Let_def split: if_splits)
  have c: "cinv shape dirs ndirs ndim x ?fin" by (rule cinv_run[OF g cinv_init])
  then have "forest x y" using y by (simp add: cinv_def)
  then show ?thesis using done_root_min[OF c d] y by blast
qed

lemma u_kernel_connect_completes:
  assumes g: "grid_ok shape ndim (length x)"
    and fr: "fair (length x) (connect_bound (length x) ndirs) sched"
  shows "\<exists>y. u_kernel_connect sched shape dirs ndirs ndim (u_kernel_init x) = Some y"
  using connect_completes[OF g fr] by (simp add: u_kernel_connect_def Let_def)

lemma roots_length: "int (length (roots y)) = int (card {i. i < length y \<and> y ! i = int i})"
proof -
  have "length (filter (\<lambda>i. y ! i = int i) [0..<length y])
      = card {i. i < length [0..<length y] \<and> y ! ([0..<length y] ! i) = int ([0..<length y] ! i)}"
    by (rule length_filter_conv_card)
  also have "{i. i < length [0..<length y] \<and> y ! ([0..<length y] ! i) = int ([0..<length y] ! i)}
           = {i. i < length y \<and> y ! i = int i}" by auto
  finally show ?thesis by (simp add: roots_def)
qed

lemma u_kernel_count_result:
  assumes f0: "forest x y0"
    and mn: "\<forall>a r. active x a \<longrightarrow> is_root_of y0 a r \<longrightarrow> r = comp_min shape dirs ndirs ndim x a"
    and r: "u_kernel_count sched y0 = Some (y, maxlabel)"
  shows "y = canon shape dirs ndirs ndim x \<and> maxlabel = int (length (roots y))"
proof -
  let ?fin = "fold count_step sched (count_init y0)"
  have d: "count_done ?fin" and y: "y = k_y ?fin" and ml: "maxlabel = k_count ?fin"
    using r by (auto simp: u_kernel_count_def Let_def split: if_splits)
  have k: "kinv x y0 ?fin" by (rule kinv_run[OF f0 kinv_init[OF f0]])
  from count_done_result[OF f0 k d]
  have len: "length y = length x"
    and z: "\<forall>i<length x. x ! i = 0 \<longrightarrow> y ! i = - 1"
    and rt: "\<forall>i<length x. x ! i \<noteq> 0 \<longrightarrow> is_root_of y0 (int i) (y ! i)"
    and cnt: "maxlabel = int (card {i. i < length x \<and> y ! i = int i})"
    using y ml by auto
  have "y = canon shape dirs ndirs ndim x"
  proof (rule nth_equalityI)
    show "length y = length (canon shape dirs ndirs ndim x)" using len by (simp add: canon_def)
  next
    fix i assume "i < length y"
    then have i: "i < length x" using len by simp
    show "y ! i = canon shape dirs ndirs ndim x ! i"
    proof (cases "x ! i = 0")
      case True
      then show ?thesis using z i by (simp add: canon_def)
    next
      case False
      then have "active x (int i)" using i by (simp add: active_def)
      then have "y ! i = comp_min shape dirs ndirs ndim x (int i)" using mn rt i False by blast
      then show ?thesis using i False by (simp add: canon_def)
    qed
  qed
  moreover have "maxlabel = int (length (roots y))" using cnt len roots_length[of y] by simp
  ultimately show ?thesis by simp
qed

lemma u_kernel_count_completes:
  assumes f0: "forest x y0" and fr: "fair (length x) (count_bound (length x)) sched"
  shows "\<exists>r. u_kernel_count sched y0 = Some r"
  using count_completes[OF f0 fr] by (simp add: u_kernel_count_def Let_def)

lemma u_kernel_labels_result:
  assumes m: "maxlabel = int (length (roots y))"
    and r: "u_kernel_labels sched y maxlabel = Some labels"
  shows "sort labels = roots y"
proof -
  let ?fin = "fold (labels_step y) sched (labels_init y maxlabel)"
  have d: "labels_done ?fin" and l: "labels = l_labels ?fin"
    using r by (auto simp: u_kernel_labels_def Let_def split: if_splits)
  have m': "maxlabel = int (card {i. i < length y \<and> y ! i = int i})"
    using m roots_length[of y] by simp
  have "linv y maxlabel ?fin" using m' by (intro linv_run[OF m'] linv_init) simp
  then show ?thesis using labels_done_result[OF m' _ d] l by simp
qed

lemma u_kernel_labels_completes:
  assumes fr: "fair (length y) labels_bound sched"
  shows "\<exists>r. u_kernel_labels sched y maxlabel = Some r"
  using labels_completes[OF fr] by (simp add: u_kernel_labels_def Let_def)

lemma u_label_result:
  assumes g: "grid_ok (map int x_shape) (length x_shape) (length x)"
    and r: "u_label sch x x_shape structure = Some res"
  shows "res = label_spec (map int x_shape) (concat (label_dirs structure))
                 (length (label_dirs structure)) (length x_shape) x"
proof -
  let ?shape = "map int x_shape" and ?dirs = "concat (label_dirs structure)"
  let ?ndirs = "length (label_dirs structure)" and ?ndim = "length x_shape"
  from r obtain y1 where c: "u_kernel_connect (sch_connect sch) ?shape ?dirs ?ndirs ?ndim (u_kernel_init x) = Some y1"
    by (auto simp: u_label_def Let_def label_dirs_def split: option.splits)
  from r c obtain y2 ml where k: "u_kernel_count (sch_count sch) y1 = Some (y2, ml)"
    by (auto simp: u_label_def Let_def label_dirs_def split: option.splits)
  from r c k obtain labels where l: "u_kernel_labels (sch_labels sch) y2 ml = Some labels"
    and res: "res = (u_kernel_finalize ml (sort labels) y2, ml)"
    by (auto simp: u_label_def Let_def label_dirs_def split: option.splits)
  from u_kernel_connect_result[OF g c]
  have f1: "forest x y1"
    and mn: "\<forall>a r. active x a \<longrightarrow> is_root_of y1 a r \<longrightarrow> r = comp_min ?shape ?dirs ?ndirs ?ndim x a"
    by auto
  from u_kernel_count_result[OF f1 mn k]
  have y2: "y2 = canon ?shape ?dirs ?ndirs ?ndim x" and ml: "ml = int (length (roots y2))" by auto
  have "sort labels = roots y2" using u_kernel_labels_result[OF ml l] .
  then show ?thesis using res y2 ml by (simp add: label_spec_def Let_def)
qed

lemma u_label_completes:
  assumes g: "grid_ok (map int x_shape) (length x_shape) (length x)"
    and fr: "fair_schedule (length x) (length (label_dirs structure)) sch"
  shows "\<exists>res. u_label sch x x_shape structure = Some res"
proof -
  let ?shape = "map int x_shape" and ?dirs = "concat (label_dirs structure)"
  let ?ndirs = "length (label_dirs structure)" and ?ndim = "length x_shape"
  have f: "fair (length x) (connect_bound (length x) ?ndirs) (sch_connect sch)"
    "fair (length x) (count_bound (length x)) (sch_count sch)"
    "fair (length x) labels_bound (sch_labels sch)"
    using fr by (auto simp: fair_schedule_def)
  obtain y1 where c: "u_kernel_connect (sch_connect sch) ?shape ?dirs ?ndirs ?ndim (u_kernel_init x) = Some y1"
    using u_kernel_connect_completes[OF g f(1)] by blast
  have f1: "forest x y1" using u_kernel_connect_result[OF g c] by simp
  obtain y2 ml where k: "u_kernel_count (sch_count sch) y1 = Some (y2, ml)"
    using u_kernel_count_completes[OF f1 f(2)] by fastforce
  have mn: "\<forall>a r. active x a \<longrightarrow> is_root_of y1 a r \<longrightarrow> r = comp_min ?shape ?dirs ?ndirs ?ndim x a"
    using u_kernel_connect_result[OF g c] by simp
  have "length y2 = length x"
    using u_kernel_count_result[OF f1 mn k] by (simp add: canon_def)
  then obtain labels where l: "u_kernel_labels (sch_labels sch) y2 ml = Some labels"
    using u_kernel_labels_completes[of y2 "sch_labels sch" ml] f(3) by auto
  show ?thesis using c k l by (simp add: u_label_def Let_def label_dirs_def)
qed

lemma conn_refl: "(a, a) \<in> conn shape dirs ndirs ndim x"
  by (simp add: conn_def)

lemma comp_set_finite:
  "finite {b. (a, b) \<in> conn shape dirs ndirs ndim x \<and> active x b}"
proof -
  have "{b. (a, b) \<in> conn shape dirs ndirs ndim x \<and> active x b} \<subseteq> {0..<int (length x)}"
    by (auto simp: active_def)
  then show ?thesis using finite_subset by blast
qed

lemma comp_min_in:
  assumes "active x a"
  shows "(a, comp_min shape dirs ndirs ndim x a) \<in> conn shape dirs ndirs ndim x
       \<and> active x (comp_min shape dirs ndirs ndim x a)"
proof -
  let ?S = "{b. (a, b) \<in> conn shape dirs ndirs ndim x \<and> active x b}"
  have "a \<in> ?S" using assms conn_refl by simp
  then have "Min ?S \<in> ?S" using comp_set_finite[of a shape dirs ndirs ndim x]
    by (intro Min_in) auto
  then show ?thesis by (simp add: comp_min_def)
qed

lemma comp_min_le:
  assumes "active x b" "(a, b) \<in> conn shape dirs ndirs ndim x"
  shows "comp_min shape dirs ndirs ndim x a \<le> b"
  unfolding comp_min_def using assms comp_set_finite[of a shape dirs ndirs ndim x]
  by (intro Min_le) auto

lemma comp_min_conn:
  assumes "(a, b) \<in> conn shape dirs ndirs ndim x"
  shows "comp_min shape dirs ndirs ndim x a = comp_min shape dirs ndirs ndim x b"
proof -
  have "{c. (a, c) \<in> conn shape dirs ndirs ndim x \<and> active x c}
      = {c. (b, c) \<in> conn shape dirs ndirs ndim x \<and> active x c}"
    using assms conn_sym conn_trans by blast
  then show ?thesis by (simp add: comp_min_def)
qed

lemma comp_min_eq_iff:
  assumes "active x a" "active x b"
  shows "(comp_min shape dirs ndirs ndim x a = comp_min shape dirs ndirs ndim x b)
       = ((a, b) \<in> conn shape dirs ndirs ndim x)"
proof
  assume e: "comp_min shape dirs ndirs ndim x a = comp_min shape dirs ndirs ndim x b"
  have "(a, comp_min shape dirs ndirs ndim x a) \<in> conn shape dirs ndirs ndim x"
    using comp_min_in[OF assms(1)] by simp
  moreover have "(comp_min shape dirs ndirs ndim x a, b) \<in> conn shape dirs ndirs ndim x"
    using comp_min_in[OF assms(2)] e conn_sym by metis
  ultimately show "(a, b) \<in> conn shape dirs ndirs ndim x" by (rule conn_trans)
next
  assume "(a, b) \<in> conn shape dirs ndirs ndim x"
  then show "comp_min shape dirs ndirs ndim x a = comp_min shape dirs ndirs ndim x b"
    by (rule comp_min_conn)
qed

lemma canon_length: "length (canon shape dirs ndirs ndim x) = length x"
  by (simp add: canon_def)

lemma canon_inactive: "i < length x \<Longrightarrow> x ! i = 0 \<Longrightarrow> canon shape dirs ndirs ndim x ! i = - 1"
  by (simp add: canon_def)

lemma canon_active:
  "i < length x \<Longrightarrow> x ! i \<noteq> 0
   \<Longrightarrow> canon shape dirs ndirs ndim x ! i = comp_min shape dirs ndirs ndim x (int i)"
  by (simp add: canon_def)

lemma canon_nonneg:
  assumes "i < length x" "x ! i \<noteq> 0"
  shows "0 \<le> canon shape dirs ndirs ndim x ! i"
proof -
  have "active x (int i)" using assms by (simp add: active_def)
  then show ?thesis using comp_min_in[of x "int i"] canon_active[OF assms]
    by (simp add: active_def)
qed

lemma roots_distinct: "distinct (roots y)"
  by (simp add: roots_def distinct_map inj_on_def)

lemma roots_set: "set (roots y) = {int i | i. i < length y \<and> y ! i = int i}"
  by (auto simp: roots_def)

lemma canon_root_mem:
  assumes i: "i < length x" and xi: "x ! i \<noteq> 0"
  shows "canon shape dirs ndirs ndim x ! i \<in> set (roots (canon shape dirs ndirs ndim x))"
proof -
  let ?cm = "comp_min shape dirs ndirs ndim x"
  have ai: "active x (int i)" using i xi by (simp add: active_def)
  have r: "active x (?cm (int i))" "(int i, ?cm (int i)) \<in> conn shape dirs ndirs ndim x"
    using comp_min_in[OF ai] by auto
  then have n: "nat (?cm (int i)) < length x" "x ! nat (?cm (int i)) \<noteq> 0"
    "int (nat (?cm (int i))) = ?cm (int i)" by (auto simp: active_def)
  have "canon shape dirs ndirs ndim x ! nat (?cm (int i)) = ?cm (?cm (int i))"
    using canon_active[OF n(1,2)] n(3) by simp
  also have "\<dots> = ?cm (int i)" using comp_min_conn[OF r(2)] by simp
  finally have "canon shape dirs ndirs ndim x ! nat (?cm (int i)) = int (nat (?cm (int i)))"
    using n(3) by simp
  then have "int (nat (?cm (int i))) \<in> set (roots (canon shape dirs ndirs ndim x))"
    unfolding roots_set canon_length using n(1) by blast
  then show ?thesis using canon_active[OF i xi] n(3) by simp
qed

text \<open>The labels of the specification, cell by cell.\<close>

lemma label_spec_cells:
  assumes "label_spec shape dirs ndirs ndim x = (out, ml)"
  shows "length out = length x
       \<and> ml = int (length (roots (canon shape dirs ndirs ndim x)))
       \<and> (\<forall>i<length x. x ! i = 0 \<longrightarrow> out ! i = 0)
       \<and> (\<forall>i<length x. x ! i \<noteq> 0 \<longrightarrow>
            1 \<le> out ! i \<and> out ! i \<le> ml
            \<and> roots (canon shape dirs ndirs ndim x) ! nat (out ! i - 1)
              = comp_min shape dirs ndirs ndim x (int i))"
proof -
  let ?y = "canon shape dirs ndirs ndim x"
  let ?rs = "roots ?y"
  have out: "out = u_kernel_finalize (int (length ?rs)) ?rs ?y" and ml: "ml = int (length ?rs)"
    using assms by (auto simp: label_spec_def Let_def)
  have len: "length out = length x" using out by (simp add: u_kernel_finalize_def canon_length)
  have z: "\<forall>i<length x. x ! i = 0 \<longrightarrow> out ! i = 0"
    using out by (simp add: u_kernel_finalize_def canon_length canon_inactive finalize_cell_def)
  have a: "\<forall>i<length x. x ! i \<noteq> 0 \<longrightarrow>
            1 \<le> out ! i \<and> out ! i \<le> ml \<and> ?rs ! nat (out ! i - 1) = comp_min shape dirs ndirs ndim x (int i)"
  proof (intro allI impI)
    fix i assume i: "i < length x" and xi: "x ! i \<noteq> 0"
    have "?y ! i \<in> set ?rs" using i xi by (rule canon_root_mem)
    then obtain k where k: "k < length ?rs" "?rs ! k = ?y ! i"
      by (auto simp: in_set_conv_nth)
    have "0 \<le> ?rs ! k" using k canon_nonneg[OF i xi] by simp
    then have "finalize_cell (int (length ?rs)) ?rs (?rs ! k) = int k + 1"
      using k(1) by (intro finalize_cell_root roots_sorted roots_distinct)
    then have "out ! i = int k + 1" using out i k(2) by (simp add: u_kernel_finalize_def canon_length)
    then show "1 \<le> out ! i \<and> out ! i \<le> ml \<and> ?rs ! nat (out ! i - 1) = comp_min shape dirs ndirs ndim x (int i)"
      using k ml canon_active[OF i xi] by simp
  qed
  show ?thesis using len ml z a by simp
qed

lemma label_spec_same_label:
  assumes ls: "label_spec shape dirs ndirs ndim x = (out, ml)"
    and i: "i < length x" "x ! i \<noteq> 0" and j: "j < length x" "x ! j \<noteq> 0"
  shows "(out ! i = out ! j) = ((int i, int j) \<in> conn shape dirs ndirs ndim x)"
proof -
  let ?rs = "roots (canon shape dirs ndirs ndim x)"
  let ?cm = "comp_min shape dirs ndirs ndim x"
  from label_spec_cells[OF ls] i j
  have ml: "ml = int (length ?rs)"
    and oi: "1 \<le> out ! i" "out ! i \<le> ml" "?rs ! nat (out ! i - 1) = ?cm (int i)"
    and oj: "1 \<le> out ! j" "out ! j \<le> ml" "?rs ! nat (out ! j - 1) = ?cm (int j)"
    by auto
  have ai: "active x (int i)" "active x (int j)" using i j by (auto simp: active_def)
  have ki: "nat (out ! i - 1) < length ?rs" "nat (out ! j - 1) < length ?rs"
    using oi oj ml by auto
  have "(out ! i = out ! j) = (nat (out ! i - 1) = nat (out ! j - 1))" using oi oj by auto
  also have "\<dots> = (?rs ! nat (out ! i - 1) = ?rs ! nat (out ! j - 1))"
    using nth_eq_iff_index_eq[OF roots_distinct ki] by simp
  also have "\<dots> = (?cm (int i) = ?cm (int j))" using oi oj by simp
  also have "\<dots> = ((int i, int j) \<in> conn shape dirs ndirs ndim x)"
    using comp_min_eq_iff[OF ai] .
  finally show ?thesis .
qed


subsection \<open>Index tuples and the neighbour of a cell\<close>

lemma concat_blocks_length:
  "\<forall>k<a. length (f k) = m \<Longrightarrow> length (concat (map f [0..<a])) = a * m"
  by (induction a) auto

lemma concat_blocks_nth:
  assumes "\<forall>k<a. length (f k) = m" "i < a * m"
  shows "concat (map f [0..<a]) ! i = f (i div m) ! (i mod m)"
  using assms
proof (induction a)
  case 0
  then show ?case by simp
next
  case (Suc a)
  have len: "length (concat (map f [0..<a])) = a * m"
    using Suc.prems by (intro concat_blocks_length) auto
  have m: "0 < m" using Suc.prems by (cases m) auto
  show ?case
  proof (cases "i < a * m")
    case True
    then show ?thesis using Suc len by (simp add: nth_append)
  next
    case False
    then have "i div m = a" using Suc.prems(2) m
      by (metis div_nat_eqI linorder_not_less mult.commute)
    moreover have "i mod m = i - a * m" using calculation m
      by (metis minus_mult_div_eq_mod mult.commute)
    ultimately show ?thesis using False len by (simp add: nth_append)
  qed
qed

lemma all_coords_cons_nth:
  assumes "i < a * prod_list ss"
  shows "all_coords (a # ss) ! i = int (i div prod_list ss) # all_coords ss ! (i mod prod_list ss)"
proof -
  let ?f = "\<lambda>k. map ((#) (int k)) (all_coords ss)"
  have l: "\<forall>k<a. length (?f k) = prod_list ss" by (simp add: all_coords_length_list)
  have p: "0 < prod_list ss" using assms by (cases "prod_list ss") auto
  have "all_coords (a # ss) ! i = ?f (i div prod_list ss) ! (i mod prod_list ss)"
    using concat_blocks_nth[OF l assms] by simp
  also have "\<dots> = int (i div prod_list ss) # all_coords ss ! (i mod prod_list ss)"
    using p by (simp add: all_coords_length_list)
  finally show ?thesis .
qed

lemma all_coords_snoc_nth:
  "i < prod_list (ss @ [s])
   \<Longrightarrow> all_coords (ss @ [s]) ! i = all_coords ss ! (i div s) @ [int (i mod s)]"
proof (induction ss arbitrary: i)
  case Nil
  then have "i < 1 * prod_list [s]" by simp
  then show ?case using all_coords_cons_nth[of i s "[]"] Nil by simp
next
  case (Cons a ss)
  let ?P = "prod_list ss"
  have i: "i < a * prod_list (ss @ [s])" using Cons.prems by simp
  have s: "0 < s" "0 < ?P" using Cons.prems by (auto intro: Nat.gr0I)
  have m: "i mod (?P * s) < prod_list (ss @ [s])" using s by simp
  have d: "i div s < a * ?P"
    using Cons.prems s by (simp add: less_mult_imp_div_less mult.assoc)
  have e: "i mod (?P * s) = s * ((i div s) mod ?P) + i mod s"
    using mod_mult2_eq[of i s ?P] by (simp add: mult.commute)
  have "all_coords (a # ss @ [s]) ! i
      = int (i div (?P * s)) # all_coords (ss @ [s]) ! (i mod (?P * s))"
    using all_coords_cons_nth[OF i] by simp
  also have "all_coords (ss @ [s]) ! (i mod (?P * s))
      = all_coords ss ! ((i mod (?P * s)) div s) @ [int ((i mod (?P * s)) mod s)]"
    using Cons.IH[OF m] .
  also have "(i mod (?P * s)) mod s = i mod s" using e by simp
  also have "(i mod (?P * s)) div s = (i div s) mod ?P" using e s by simp
  also have "i div (?P * s) = (i div s) div ?P" by (simp add: div_mult2_eq mult.commute)
  finally have "all_coords (a # ss @ [s]) ! i
      = (int ((i div s) div ?P) # all_coords ss ! ((i div s) mod ?P)) @ [int (i mod s)]" by simp
  then show ?case using all_coords_cons_nth[OF d] by simp
qed

lemma ravel_snoc:
  "length c = length ss \<Longrightarrow> ravel (ss @ [s]) (c @ [a]) = ravel ss c * int s + a"
  by (simp add: ravel_def)

lemma coords_length: "i < prod_list shp \<Longrightarrow> length (coords shp i) = length shp"
  unfolding coords_def by (intro all_coords_length nth_mem) (simp add: all_coords_length_list)

lemma coords_inbounds: "i < prod_list shp \<Longrightarrow> inbounds shp (coords shp i)"
proof -
  assume i: "i < prod_list shp"
  then have "coords shp i \<in> set (all_coords shp)"
    unfolding coords_def by (intro nth_mem) (simp add: all_coords_length_list)
  then show ?thesis using all_coords_range all_coords_length by (auto simp: inbounds_def)
qed

lemma coords_snoc:
  "i < prod_list ss * s \<Longrightarrow> coords (ss @ [s]) i = coords ss (i div s) @ [int (i mod s)]"
  unfolding coords_def by (intro all_coords_snoc_nth) simp

lemma inbounds_snoc:
  "length w = length ss
   \<Longrightarrow> inbounds (ss @ [s]) (w @ [p]) = (inbounds ss w \<and> 0 \<le> p \<and> p < int s)"
  by (auto simp: inbounds_def nth_append less_Suc_eq)

lemma ravel_coords: "i < prod_list shp \<Longrightarrow> ravel shp (coords shp i) = int i"
proof (induction shp arbitrary: i rule: rev_induct)
  case Nil
  then show ?case by (simp add: ravel_def coords_def)
next
  case (snoc s ss)
  have i: "i < prod_list ss * s" using snoc.prems by simp
  then have s: "0 < s" by (auto intro: Nat.gr0I)
  have d: "i div s < prod_list ss" using i s by (simp add: less_mult_imp_div_less)
  have "ravel (ss @ [s]) (coords (ss @ [s]) i)
      = ravel ss (coords ss (i div s)) * int s + int (i mod s)"
    using coords_snoc[OF i] coords_length[OF d] by (simp add: ravel_snoc)
  also have "\<dots> = int (i div s) * int s + int (i mod s)" using snoc.IH[OF d] by simp
  also have "\<dots> = int ((i div s) * s + i mod s)" by (simp only: of_nat_add of_nat_mult)
  also have "(i div s) * s + i mod s = i" by simp
  finally show ?case .
qed

lemma coords_ravel:
  "inbounds shp c \<Longrightarrow> 0 \<le> ravel shp c \<and> ravel shp c < int (prod_list shp)
     \<and> coords shp (nat (ravel shp c)) = c"
proof (induction shp arbitrary: c rule: rev_induct)
  case Nil
  then show ?case by (simp add: ravel_def coords_def inbounds_def)
next
  case (snoc s ss)
  from snoc.prems have "length c = Suc (length ss)" by (simp add: inbounds_def)
  then obtain w p where c: "c = w @ [p]" and lw: "length w = length ss"
    by (metis length_Suc_conv_rev)
  have ib: "inbounds ss w" and p: "0 \<le> p" "p < int s"
    using snoc.prems inbounds_snoc[OF lw] c by auto
  from snoc.IH[OF ib] have r: "0 \<le> ravel ss w" "ravel ss w < int (prod_list ss)"
    "coords ss (nat (ravel ss w)) = w" by auto
  let ?r = "ravel ss w"
  have rv: "ravel (ss @ [s]) c = ?r * int s + p" using c lw by (simp add: ravel_snoc)
  have lo: "0 \<le> ?r * int s + p" using r p by simp
  have "?r * int s + p < (?r + 1) * int s" using p by (simp add: algebra_simps)
  also have "\<dots> \<le> int (prod_list ss) * int s" using r by (intro mult_right_mono) auto
  finally have hi: "?r * int s + p < int (prod_list ss * s)" by simp
  have n: "nat (?r * int s + p) = nat ?r * s + nat p"
    using r p by (simp add: nat_add_distrib nat_mult_distrib)
  have np: "nat p < s" using p by simp
  have il: "nat (?r * int s + p) < prod_list ss * s" using hi lo nat_less_iff by blast
  have "coords (ss @ [s]) (nat (?r * int s + p))
      = coords ss ((nat ?r * s + nat p) div s) @ [int ((nat ?r * s + nat p) mod s)]"
    using coords_snoc[OF il] n by simp
  also have "\<dots> = w @ [p]" using np r(3) p by simp
  finally show ?case using rv lo hi c by simp
qed

lemma smod_nat: "int r smod int s = int (r mod s)"
  by (simp add: signed_modulo_int_def sgn_if zmod_int)

lemma sdiv_nat: "int r sdiv int s = int (r div s)"
  by (simp add: signed_divide_int_def sgn_if zdiv_int)

lemma vadd_snoc:
  "length c = length v \<Longrightarrow> vadd (c @ [a]) (v @ [b]) = vadd c v @ [a + b]"
  by (simp add: vadd_def)

lemma vadd_length: "length c = length v \<Longrightarrow> length (vadd c v) = length c"
  by (simp add: vadd_def)

text \<open>The loop of the connect kernel computes the flat index of the shifted index tuple.\<close>

lemma neighbor_loop_coords:
  assumes sh: "shape = map int shp" and pos: "\<forall>s\<in>set shp. 0 < s"
    and dv: "\<forall>d<length shp. dirs ! (d + dr * ndim) = v ! d" and lv: "length v = length shp"
  shows "m \<le> length shp \<Longrightarrow> r < prod_list (take m shp)
     \<Longrightarrow> neighbor_loop shape dirs ndim dr m (int r) stride k
       = (if inbounds (take m shp) (vadd (coords (take m shp) r) (take m v))
          then k + stride * ravel (take m shp) (vadd (coords (take m shp) r) (take m v))
          else - 1)"
proof (induction m arbitrary: r stride k)
  case 0
  then show ?case by (simp add: inbounds_def vadd_def coords_def ravel_def)
next
  case (Suc m)
  let ?s = "shp ! m"
  let ?ss = "take m shp"
  have m: "m < length shp" using Suc.prems by simp
  have tk: "take (Suc m) shp = ?ss @ [?s]" using m by (simp add: take_Suc_conv_app_nth)
  have tv: "take (Suc m) v = take m v @ [v ! m]" using m lv by (simp add: take_Suc_conv_app_nth)
  have s: "0 < ?s" using pos m by simp
  have r: "r < prod_list ?ss * ?s" using Suc.prems tk by simp
  have d: "r div ?s < prod_list ?ss" using r s by (simp add: less_mult_imp_div_less)
  have lc: "length (coords ?ss (r div ?s)) = length (take m v)"
    using coords_length[OF d] m lv by simp
  let ?w = "vadd (coords ?ss (r div ?s)) (take m v)"
  let ?p = "int (r mod ?s) + v ! m"
  have w: "vadd (coords (take (Suc m) shp) r) (take (Suc m) v) = ?w @ [?p]"
    using coords_snoc[OF r] tk tv vadd_snoc[OF lc] by simp
  have lw: "length ?w = length ?ss" using vadd_length[OF lc] coords_length[OF d] by simp
  have ib: "inbounds (take (Suc m) shp) (?w @ [?p]) = (inbounds ?ss ?w \<and> 0 \<le> ?p \<and> ?p < int ?s)"
    using inbounds_snoc[OF lw] tk by simp
  have rv: "ravel (take (Suc m) shp) (?w @ [?p]) = ravel ?ss ?w * int ?s + ?p"
    using ravel_snoc[OF lw] tk by simp
  have shm: "shape ! m = int ?s" using sh m by simp
  have ps: "int r smod shape ! m + dirs ! (m + dr * ndim) = ?p"
    using shm dv m by (simp add: smod_nat)
  show ?case
  proof (cases "?p < 0 \<or> ?p \<ge> int ?s")
    case True
    then have "\<not> inbounds (take (Suc m) shp) (?w @ [?p])" using ib by auto
    moreover have "neighbor_loop shape dirs ndim dr (Suc m) (int r) stride k = - 1"
      using True ps shm by (auto simp: Let_def)
    ultimately show ?thesis using w by simp
  next
    case False
    have "neighbor_loop shape dirs ndim dr (Suc m) (int r) stride k
        = neighbor_loop shape dirs ndim dr m (int (r div ?s)) (stride * int ?s) (k + ?p * stride)"
      using False ps shm by (simp add: Let_def sdiv_nat)
    also have "\<dots> = (if inbounds ?ss ?w then k + ?p * stride + stride * int ?s * ravel ?ss ?w else - 1)"
      using Suc.IH[OF _ d] m by simp
    finally show ?thesis using False w ib rv by (simp add: algebra_simps)
  qed
qed

lemma concat_rows_nth:
  "\<forall>row\<in>set dirsl. length row = ndim \<Longrightarrow> dr < length dirsl \<Longrightarrow> d < ndim
   \<Longrightarrow> concat dirsl ! (d + dr * ndim) = dirsl ! dr ! d"
proof (induction dirsl arbitrary: dr)
  case Nil
  then show ?case by simp
next
  case (Cons row rest)
  show ?case
  proof (cases dr)
    case 0
    then show ?thesis using Cons.prems by (simp add: nth_append)
  next
    case (Suc dr')
    then have "concat rest ! (d + dr' * ndim) = rest ! dr' ! d"
      using Cons.prems by (intro Cons.IH) auto
    then show ?thesis using Cons.prems Suc by (simp add: nth_append)
  qed
qed

lemma neighbor_coords:
  assumes pos: "\<forall>s\<in>set shp. 0 < s" and rows: "\<forall>row\<in>set dirsl. length row = length shp"
    and dr: "dr < length dirsl" and i: "i < prod_list shp"
  shows "neighbor (map int shp) (concat dirsl) (length shp) dr i
       = (if inbounds shp (vadd (coords shp i) (dirsl ! dr))
          then ravel shp (vadd (coords shp i) (dirsl ! dr)) else - 1)"
proof -
  have dv: "\<forall>d<length shp. concat dirsl ! (d + dr * length shp) = (dirsl ! dr) ! d"
    using concat_rows_nth[OF rows dr] by simp
  have lv: "length (dirsl ! dr) = length shp" using rows dr by simp
  show ?thesis
    unfolding neighbor_def
    using neighbor_loop_coords[OF refl pos dv lv, of "length shp" i 1 0] i lv by simp
qed

lemma neighbor_iff:
  assumes pos: "\<forall>s\<in>set shp. 0 < s" and rows: "\<forall>row\<in>set dirsl. length row = length shp"
    and dr: "dr < length dirsl" and i: "i < prod_list shp" and k: "k < prod_list shp"
  shows "(neighbor (map int shp) (concat dirsl) (length shp) dr i = int k)
       = (coords shp k = vadd (coords shp i) (dirsl ! dr))"
proof
  let ?w = "vadd (coords shp i) (dirsl ! dr)"
  assume e: "neighbor (map int shp) (concat dirsl) (length shp) dr i = int k"
  then have ib: "inbounds shp ?w" and rv: "ravel shp ?w = int k"
    using neighbor_coords[OF pos rows dr i] by (auto split: if_splits)
  then show "coords shp k = ?w" using coords_ravel[OF ib] by simp
next
  let ?w = "vadd (coords shp i) (dirsl ! dr)"
  assume e: "coords shp k = ?w"
  then have "inbounds shp ?w" using coords_inbounds[OF k] by simp
  then show "neighbor (map int shp) (concat dirsl) (length shp) dr i = int k"
    using neighbor_coords[OF pos rows dr i] ravel_coords[OF k] e by simp
qed

lemma vadd_neg:
  assumes "length c = length v" "b = vadd c v"
  shows "c = vadd b (map uminus v)"
  using assms by (auto simp: vadd_def list_eq_iff_nth_eq)

lemma vadd_zero: "length c = r \<Longrightarrow> vadd c (replicate r 0) = c"
  by (auto simp: vadd_def list_eq_iff_nth_eq)

lemma coords_inj:
  assumes "p < prod_list shp" "q < prod_list shp" "coords shp p = coords shp q"
  shows "p = q"
  using assms nth_eq_iff_index_eq[OF all_coords_distinct, of p shp q]
  by (simp add: coords_def all_coords_length_list)

lemma dirs_cover:
  assumes r: "1 \<le> r" and cs: "centrosymmetric (replicate r 3) bs"
    and v: "v \<in> set (struct_vecs (replicate r 3) bs)"
  shows "v \<in> set (compile_dirs (replicate r 3) bs)
       \<or> map uminus v \<in> set (compile_dirs (replicate r 3) bs) \<or> v = replicate r 0"
proof -
  have t: "ternary r v" using v by (rule struct_vecs_ternary)
  then have ne: "v \<noteq> []" using r by (auto simp: ternary_def)
  have mv: "map uminus v \<in> set (struct_vecs (replicate r 3) bs)"
    using cs v unfolding centrosymmetric_def by blast
  have z: "enc v = 0 \<longleftrightarrow> v = replicate r 0"
    using enc_zero_iff[OF ne] t by (auto simp: ternary_def)
  have "enc (map uminus v) = - enc v" using ne by (rule enc_uminus)
  then show ?thesis using v mv z unfolding compile_dirs_def by (cases "enc v < 0") auto
qed

lemma compile_dirs_subset: "set (compile_dirs shp bs) \<subseteq> set (struct_vecs shp bs)"
  by (auto simp: compile_dirs_def)

lemma compile_dirs_rows:
  "\<forall>row\<in>set (compile_dirs (replicate r 3) bs). length row = r"
  using struct_vecs_ternary compile_dirs_subset by (fastforce simp: ternary_def)

text \<open>
  For a centrosymmetric structure, the connectivity the kernel works with is the
  reachability by chains of structure offsets.
\<close>

lemma conn_chain:
  assumes pos: "\<forall>s\<in>set shp. 0 < s" and n: "length x = prod_list shp"
    and r: "1 \<le> length shp" and cs: "centrosymmetric (replicate (length shp) 3) bs"
    and a: "active x a"
  shows "(a, b) \<in> conn (map int shp) (concat (compile_dirs (replicate (length shp) 3) bs))
                      (length (compile_dirs (replicate (length shp) 3) bs)) (length shp) x
         \<Longrightarrow> (nat a, nat b) \<in> (se_step shp x (struct_vecs (replicate (length shp) 3) bs))\<^sup>*"
  unfolding conn_def
proof (induction rule: rtrancl_induct)
  case base
  then show ?case by simp
next
  case (step b c)
  let ?dl = "compile_dirs (replicate (length shp) 3) bs"
  let ?vs = "struct_vecs (replicate (length shp) 3) bs"
  let ?E = "edges (map int shp) (concat ?dl) (length ?dl) (length shp) x"
  have rows: "\<forall>row\<in>set ?dl. length row = length shp" using compile_dirs_rows by blast
  have "(nat b, nat c) \<in> se_step shp x ?vs"
  proof (cases "(b, c) \<in> ?E")
    case True
    then obtain dr where ab: "active x b" and ac: "active x c" and dr: "dr < length ?dl"
      and nb: "c = neighbor (map int shp) (concat ?dl) (length shp) dr (nat b)"
      by (auto simp: edges_def)
    have bn: "nat b < prod_list shp" "nat c < prod_list shp" "int (nat c) = c"
      using ab ac n by (auto simp: active_def)
    have "coords shp (nat c) = vadd (coords shp (nat b)) (?dl ! dr)"
      using neighbor_iff[OF pos rows dr bn(1,2)] nb bn(3) by simp
    moreover have "?dl ! dr \<in> set ?vs" using dr compile_dirs_subset nth_mem by blast
    ultimately show ?thesis using ab ac bn n by (auto simp: se_step_def active_def)
  next
    case False
    then have "(c, b) \<in> ?E" using step(2) by simp
    then obtain dr where ab: "active x b" and ac: "active x c" and dr: "dr < length ?dl"
      and nb: "b = neighbor (map int shp) (concat ?dl) (length shp) dr (nat c)"
      by (auto simp: edges_def)
    have bn: "nat b < prod_list shp" "nat c < prod_list shp" "int (nat b) = b"
      using ab ac n by (auto simp: active_def)
    have e: "coords shp (nat b) = vadd (coords shp (nat c)) (?dl ! dr)"
      using neighbor_iff[OF pos rows dr bn(2,1)] nb bn(3) by simp
    have lv: "length (coords shp (nat c)) = length (?dl ! dr)"
      using coords_length[OF bn(2)] rows dr by simp
    have "coords shp (nat c) = vadd (coords shp (nat b)) (map uminus (?dl ! dr))"
      using vadd_neg[OF lv e] .
    moreover have "?dl ! dr \<in> set ?vs" using dr compile_dirs_subset nth_mem by blast
    then have "map uminus (?dl ! dr) \<in> set ?vs" using cs unfolding centrosymmetric_def by blast
    ultimately show ?thesis using ab ac bn n by (auto simp: se_step_def active_def)
  qed
  then show ?case using step.IH by simp
qed

lemma chain_conn:
  assumes pos: "\<forall>s\<in>set shp. 0 < s" and n: "length x = prod_list shp"
    and r: "1 \<le> length shp" and cs: "centrosymmetric (replicate (length shp) 3) bs"
  shows "(p, q) \<in> (se_step shp x (struct_vecs (replicate (length shp) 3) bs))\<^sup>*
         \<Longrightarrow> (int p, int q) \<in> conn (map int shp) (concat (compile_dirs (replicate (length shp) 3) bs))
                      (length (compile_dirs (replicate (length shp) 3) bs)) (length shp) x"
proof (induction rule: rtrancl_induct)
  case base
  then show ?case by (simp add: conn_def)
next
  case (step q q')
  let ?dl = "compile_dirs (replicate (length shp) 3) bs"
  let ?vs = "struct_vecs (replicate (length shp) 3) bs"
  let ?C = "conn (map int shp) (concat ?dl) (length ?dl) (length shp) x"
  have rows: "\<forall>row\<in>set ?dl. length row = length shp" using compile_dirs_rows by blast
  from step(2) obtain v where q: "q < length x" "x ! q \<noteq> 0" and q': "q' < length x" "x ! q' \<noteq> 0"
    and v: "v \<in> set ?vs" and e: "coords shp q' = vadd (coords shp q) v"
    by (auto simp: se_step_def)
  have aq: "active x (int q)" "active x (int q')" using q q' by (auto simp: active_def)
  have lq: "q < prod_list shp" "q' < prod_list shp" using q q' n by auto
  from dirs_cover[OF r cs v]
  have "(int q, int q') \<in> ?C"
  proof (elim disjE)
    assume "v \<in> set ?dl"
    then obtain dr where dr: "dr < length ?dl" "?dl ! dr = v" by (auto simp: in_set_conv_nth)
    have "neighbor (map int shp) (concat ?dl) (length shp) dr q = int q'"
      using neighbor_iff[OF pos rows dr(1) lq] e dr(2) by simp
    then show ?thesis using conn_edge[OF aq(1) dr(1), of "map int shp" "concat ?dl" "length shp"] aq(2)
      by simp
  next
    assume "map uminus v \<in> set ?dl"
    then obtain dr where dr: "dr < length ?dl" "?dl ! dr = map uminus v"
      by (auto simp: in_set_conv_nth)
    have lv: "length (coords shp q) = length v"
      using coords_length[OF lq(1)] struct_vecs_ternary[OF v] by (simp add: ternary_def)
    have "coords shp q = vadd (coords shp q') (map uminus v)" using vadd_neg[OF lv e] .
    then have "neighbor (map int shp) (concat ?dl) (length shp) dr q' = int q"
      using neighbor_iff[OF pos rows dr(1) lq(2,1)] dr(2) by simp
    then have "(int q', int q) \<in> ?C"
      using conn_edge[OF aq(2) dr(1), of "map int shp" "concat ?dl" "length shp"] aq(1) by simp
    then show ?thesis by (rule conn_sym)
  next
    assume "v = replicate (length shp) 0"
    then have "coords shp q' = coords shp q"
      using e vadd_zero[OF coords_length[OF lq(1)]] by simp
    then have "q' = q" using coords_inj[OF lq(2,1)] by simp
    then show ?thesis by (simp add: conn_def)
  qed
  then show ?case using step.IH conn_trans by blast
qed

subsection \<open>The function label\<close>

lemma complex_char: "(dtype_char (arr_dtype input) \<in> set ''FD'') = is_complex input"
  by (cases "arr_dtype input") (auto simp: is_complex_def)

lemma label_error:
  "validation input structure output = Some e
   \<Longrightarrow> label astype sch input structure output = Some (Inl e)"
  unfolding validation_def label_def complex_char the_structure_def Let_def
  by (auto split: if_splits out_arg.splits option.splits)

lemma label_empty:
  assumes "validation input structure output = None" "arr_size input = 0"
  shows "label astype sch input structure output = Some (Inr (mk_ret output [] 0))"
  using assms
  unfolding validation_def label_def complex_char the_structure_def Let_def mk_ret_def
  by (auto split: if_splits out_arg.splits option.splits)

lemma label_scalar:
  assumes "validation input structure output = None" "arr_size input \<noteq> 0" "arr_ndim input = 0"
  shows "label astype sch input structure output
       = Some (Inr (mk_ret output
           [to_dtype astype (out_dtype output) (if hd (arr_data input) = 0 then 0 else 1)]
           (if hd (arr_data input) = 0 then 0 else 1)))"
  using assms
  unfolding validation_def label_def complex_char the_structure_def Let_def mk_ret_def
  by (auto split: if_splits out_arg.splits option.splits)

lemma label_array:
  assumes "validation input structure output = None" "arr_size input \<noteq> 0" "arr_ndim input \<noteq> 0"
  shows "label astype sch input structure output
       = (case u_label sch (arr_data input) (arr_shape input) (the_structure input structure) of
            None \<Rightarrow> None
          | Some (y, maxlabel) \<Rightarrow>
              Some (Inr (mk_ret output
                (if out_dtype output \<noteq> Int32 then map (astype (out_dtype output)) y else y)
                maxlabel)))"
  using assms
  unfolding validation_def label_def complex_char the_structure_def Let_def mk_ret_def
  by (auto split: if_splits out_arg.splits option.splits)

lemma label_no_error:
  assumes "validation input structure output = None"
  shows "label astype sch input structure output \<noteq> Some (Inl e)"
proof (cases "arr_size input = 0")
  case True
  then show ?thesis using label_empty[OF assms] by simp
next
  case False
  show ?thesis
  proof (cases "arr_ndim input = 0")
    case True
    then show ?thesis using label_scalar[OF assms False] by simp
  next
    case nz: False
    show ?thesis using label_array[OF assms False nz]
      by (auto split: option.splits)
  qed
qed

lemma grid_ok_wf:
  assumes "wf_array input" "arr_size input \<noteq> 0"
  shows "grid_ok (map int (arr_shape input)) (length (arr_shape input)) (length (arr_data input))"
proof -
  have "prod_list (arr_shape input) \<noteq> 0" using assms by (simp add: arr_size_def)
  then have "0 \<notin> set (arr_shape input)" by (simp add: prod_list_zero_iff)
  then have "\<forall>s\<in>set (arr_shape input). 0 < s" by (metis gr0I)
  moreover have "prod_list (map int shp) = int (prod_list shp)" for shp
    by (induction shp) simp_all
  ultimately show ?thesis using assms by (simp add: grid_ok_def wf_array_def arr_size_def)
qed

lemma count_list_concat: "count_list (concat xss) a = sum_list (map (\<lambda>xs. count_list xs a) xss)"
  by (induction xss) auto

lemma count_list_sequential: "count_list (sequential n b) i = (if i < n then b else 0)"
proof -
  have "count_list (sequential n b) i = sum_list (map (\<lambda>j. if j = i then b else 0) [0..<n])"
    by (simp add: sequential_def count_list_concat comp_def count_list_replicate_eq)
  also have "\<dots> = (if i < n then b else 0)"
    by (induction n) auto
  finally show ?thesis .
qed

lemma fair_sequential: "fair n b (sequential n b)"
  by (simp add: fair_def count_list_sequential)

lemma fair_sequential_schedule: "fair_schedule n ndirs (sequential_schedule n ndirs)"
  by (simp add: fair_schedule_def sequential_schedule_def fair_sequential)

lemma label_deterministic:
  assumes wf: "wf_array input"
    and r1: "label astype sch1 input structure output = Some r1"
    and r2: "label astype sch2 input structure output = Some r2"
  shows "r1 = r2"
proof (cases "validation input structure output")
  case (Some e)
  then show ?thesis using label_error[OF Some] r1 r2 by simp
next
  case None
  show ?thesis
  proof (cases "arr_size input = 0")
    case True
    then show ?thesis using label_empty[OF None True] r1 r2 by simp
  next
    case False
    show ?thesis
    proof (cases "arr_ndim input = 0")
      case True
      then show ?thesis using label_scalar[OF None False True] r1 r2 by simp
    next
      case nz: False
      let ?st = "the_structure input structure"
      have g: "grid_ok (map int (arr_shape input)) (length (arr_shape input)) (length (arr_data input))"
        using grid_ok_wf[OF wf False] .
      from r1 label_array[OF None False nz, of astype sch1]
      obtain y1 m1 where u1: "u_label sch1 (arr_data input) (arr_shape input) ?st = Some (y1, m1)"
        and e1: "r1 = Inr (mk_ret output (if out_dtype output \<noteq> Int32 then map (astype (out_dtype output)) y1 else y1) m1)"
        by (auto split: option.splits)
      from r2 label_array[OF None False nz, of astype sch2]
      obtain y2 m2 where u2: "u_label sch2 (arr_data input) (arr_shape input) ?st = Some (y2, m2)"
        and e2: "r2 = Inr (mk_ret output (if out_dtype output \<noteq> Int32 then map (astype (out_dtype output)) y2 else y2) m2)"
        by (auto split: option.splits)
      have "(y1, m1) = (y2, m2)" using u_label_result[OF g u1] u_label_result[OF g u2] by simp
      then show ?thesis using e1 e2 by simp
    qed
  qed
qed

lemma label_completes:
  assumes wf: "wf_array input"
    and fr: "fair_schedule (arr_size input) (length (label_dirs (the_structure input structure))) sch"
  shows "\<exists>r. label astype sch input structure output = Some r"
proof (cases "validation input structure output")
  case (Some e)
  then show ?thesis using label_error[OF Some] by simp
next
  case None
  show ?thesis
  proof (cases "arr_size input = 0")
    case True
    then show ?thesis using label_empty[OF None True] by simp
  next
    case False
    show ?thesis
    proof (cases "arr_ndim input = 0")
      case True
      then show ?thesis using label_scalar[OF None False True] by simp
    next
      case nz: False
      have g: "grid_ok (map int (arr_shape input)) (length (arr_shape input)) (length (arr_data input))"
        using grid_ok_wf[OF wf False] .
      have "length (arr_data input) = arr_size input" using wf by (simp add: wf_array_def)
      then obtain res where "u_label sch (arr_data input) (arr_shape input) (the_structure input structure) = Some res"
        using u_label_completes[OF g, of "the_structure input structure" sch] fr by auto
      then show ?thesis using label_array[OF None False nz, of astype sch]
        by (auto split: prod.splits)
    qed
  qed
qed



text \<open>
  Claim C8. Labelling the one-dimensional field \<open>[1,0,1,1,0,1]\<close> with the structure
  \<open>[1,1,1]\<close> returns the label array \<open>[1,0,2,2,0,3]\<close> and the count 3: no schedule makes
  the call return anything else, and the call returns under every schedule that gives
  each thread the steps it needs.
\<close>

theorem scenario_1d:
  "(label astype sch \<lparr>arr_dtype = Int32, arr_shape = [6], arr_data = [1, 0, 1, 1, 0, 1]\<rparr>
        (Some \<lparr>arr_dtype = Int32, arr_shape = [3], arr_data = [1, 1, 1]\<rparr>) Out_None = None
    \<or> label astype sch \<lparr>arr_dtype = Int32, arr_shape = [6], arr_data = [1, 0, 1, 1, 0, 1]\<rparr>
        (Some \<lparr>arr_dtype = Int32, arr_shape = [3], arr_data = [1, 1, 1]\<rparr>) Out_None
      = Some (Inr (Ret_pair [1, 0, 2, 2, 0, 3] 3)))
   \<and> (fair_schedule 6 1 sch \<longrightarrow>
        label astype sch \<lparr>arr_dtype = Int32, arr_shape = [6], arr_data = [1, 0, 1, 1, 0, 1]\<rparr>
          (Some \<lparr>arr_dtype = Int32, arr_shape = [3], arr_data = [1, 1, 1]\<rparr>) Out_None
        = Some (Inr (Ret_pair [1, 0, 2, 2, 0, 3] 3)))"
proof -
  let ?inp = "\<lparr>arr_dtype = Int32, arr_shape = [6], arr_data = [1, 0, 1, 1, 0, 1]\<rparr>"
  let ?st = "Some \<lparr>arr_dtype = Int32, arr_shape = [3], arr_data = [1, 1, 1]\<rparr>"
  let ?short = "\<lparr>sch_connect = sequential 6 12, sch_count = sequential 6 6, sch_labels = sequential 6 3\<rparr>"
  let ?res = "Inr (Ret_pair [1, 0, 2, 2, 0, 3] 3) :: error + retval"
  have wf: "wf_array ?inp" by (simp add: wf_array_def arr_size_def)
  have run: "label astype ?short ?inp ?st Out_None = Some ?res"
    by (simp add: label_def to_dtype_def) code_simp
  have det: "\<And>r. label astype sch ?inp ?st Out_None = Some r \<Longrightarrow> r = ?res"
    using label_deterministic[OF wf _ run] by blast
  have n: "arr_size ?inp = 6" by (simp add: arr_size_def)
  have d: "length (label_dirs (the_structure ?inp ?st)) = 1" by code_simp
  have "fair_schedule 6 1 sch \<Longrightarrow> \<exists>r. label astype sch ?inp ?st Out_None = Some r"
    using label_completes[OF wf, of ?st sch astype Out_None] n d by simp
  then show ?thesis using det by (cases "label astype sch ?inp ?st Out_None") auto
qed

theorem scenario_1d_witness:
  "fair_schedule 6 1 (sequential_schedule 6 1)
   \<and> label (\<lambda>d v. v) (sequential_schedule 6 1)
        \<lparr>arr_dtype = Int32, arr_shape = [6], arr_data = [1, 0, 1, 1, 0, 1]\<rparr>
        (Some \<lparr>arr_dtype = Int32, arr_shape = [3], arr_data = [1, 1, 1]\<rparr>) Out_None
      = Some (Inr (Ret_pair [1, 0, 2, 2, 0, 3] 3))"
  using scenario_1d[of "\<lambda>d v. v" "sequential_schedule 6 1"] fair_sequential_schedule[of 6 1]
  by blast

subsection \<open>Density, range and boundary cases\<close>



lemma label_array_spec:
  assumes wf: "wf_array input" and v: "validation input structure output = None"
    and sz: "arr_size input \<noteq> 0" and nd: "arr_ndim input \<noteq> 0"
    and dt: "out_dtype output = Int32"
    and r: "label astype sch input structure output = Some (Inr r)"
  shows "label_spec (map int (arr_shape input))
           (concat (label_dirs (the_structure input structure)))
           (length (label_dirs (the_structure input structure)))
           (length (arr_shape input)) (arr_data input)
         = (ret_labels r, ret_maxlabel r)"
proof -
  have g: "grid_ok (map int (arr_shape input)) (length (arr_shape input)) (length (arr_data input))"
    using grid_ok_wf[OF wf sz] .
  from r label_array[OF v sz nd, of astype sch] dt
  obtain y m where u: "u_label sch (arr_data input) (arr_shape input) (the_structure input structure) = Some (y, m)"
    and e: "r = mk_ret output y m"
    by (auto split: option.splits)
  have "ret_labels r = y" "ret_maxlabel r = m" using e by (auto simp: mk_ret_def)
  then show ?thesis using u_label_result[OF g u] by simp
qed

lemma label_scalar_data:
  assumes wf: "wf_array input" and nd: "arr_ndim input = 0"
  shows "arr_size input = 1 \<and> arr_data input = [hd (arr_data input)]"
proof -
  have "arr_size input = 1" using nd by (simp add: arr_size_def arr_ndim_def)
  moreover then have "length (arr_data input) = 1" using wf by (simp add: wf_array_def)
  ultimately show ?thesis by (cases "arr_data input") auto
qed










subsection \<open>Partition correctness\<close>

lemma validated_shape:
  assumes "validation input structure output = None"
  shows "arr_shape (the_structure input structure) = replicate (length (arr_shape input)) 3"
proof -
  let ?st = "the_structure input structure"
  have "arr_ndim ?st = arr_ndim input" "\<forall>i\<in>set (arr_shape ?st). i = 3"
    using assms by (auto simp: validation_def split: if_splits)
  then have "length (arr_shape ?st) = length (arr_shape input)" "\<forall>i\<in>set (arr_shape ?st). i = 3"
    by (auto simp: arr_ndim_def)
  then show ?thesis by (metis replicate_eqI)
qed

lemma all_coords_mem:
  "length c = length shp \<Longrightarrow> (\<forall>i<length shp. 0 \<le> c ! i \<and> c ! i < int (shp ! i))
     \<Longrightarrow> c \<in> set (all_coords shp)"
proof (induction shp arbitrary: c)
  case Nil
  then show ?case by simp
next
  case (Cons s ss)
  from Cons.prems(1) obtain a c' where c: "c = a # c'" by (cases c) auto
  have a: "0 \<le> a" "a < int s" using Cons.prems(2) c by auto
  have "\<forall>i<length ss. 0 \<le> c' ! i \<and> c' ! i < int (ss ! i)"
    using Cons.prems(2) c by auto
  then have m: "c' \<in> set (all_coords ss)" using Cons.IH[of c'] Cons.prems(1) c by simp
  have "nat a < s" "int (nat a) = a" using a by auto
  then show ?case using m c by (auto intro!: bexI[of _ "nat a"])
qed

lemma np_where_filter:
  "np_where shp (map P (all_coords shp)) = filter P (all_coords shp)"
proof -
  have "map fst (filter snd (zip xs (map P xs))) = filter P xs" for xs :: "int list list"
    by (induction xs) auto
  then show ?thesis by (simp add: np_where_def)
qed

text \<open>
  The structure \<^verbatim>\<open>label\<close> generates when the caller gives none is centrosymmetric.
\<close>

lemma generated_structure_centrosymmetric:
  "centrosymmetric (arr_shape (the_structure input None))
     (map (\<lambda>v. v \<noteq> 0) (arr_data (the_structure input None)))"
proof (cases "arr_ndim input < 1")
  case True
  then show ?thesis
    by (simp add: the_structure_def u_generate_binary_structure_def centrosymmetric_def
        struct_vecs_def np_where_def)
next
  case False
  let ?r = "arr_ndim input"
  let ?shp = "replicate ?r (3::nat)"
  let ?P = "\<lambda>c::int list. sum_list (map (\<lambda>a. \<bar>a - 1\<bar>) c) \<le> 1"
  have s: "arr_shape (the_structure input None) = ?shp"
    using False by (simp add: the_structure_def u_generate_binary_structure_def)
  have d: "map (\<lambda>v. v \<noteq> 0) (arr_data (the_structure input None)) = map ?P (all_coords ?shp)"
    using False by (simp add: the_structure_def u_generate_binary_structure_def)
  have sv: "struct_vecs ?shp (map ?P (all_coords ?shp))
            = map (map (\<lambda>c. c - 1)) (filter ?P (all_coords ?shp))"
    by (simp add: struct_vecs_def np_where_filter)
  have "map uminus v \<in> set (map (map (\<lambda>c. c - 1)) (filter ?P (all_coords ?shp)))"
    if "v \<in> set (map (map (\<lambda>c. c - 1)) (filter ?P (all_coords ?shp)))" for v
  proof -
    from that obtain c where c: "c \<in> set (all_coords ?shp)" "?P c" and v: "v = map (\<lambda>c. c - 1) c"
      by auto
    let ?c' = "map (\<lambda>a. 2 - a) c"
    have len: "length c = ?r" using all_coords_length[OF c(1)] by simp
    have rg: "\<forall>i<?r. 0 \<le> c ! i \<and> c ! i < 3" using all_coords_range[OF c(1)] by auto
    have m: "?c' \<in> set (all_coords ?shp)"
      using len rg by (intro all_coords_mem) auto
    have "map (\<lambda>a. \<bar>a - 1\<bar>) ?c' = map (\<lambda>a. \<bar>a - 1\<bar>) c" by auto
    then have p: "?P ?c'" using c(2) by (simp only:)
    have e: "map uminus v = map (\<lambda>c. c - 1) ?c'" using v by simp
    have "?c' \<in> set (filter ?P (all_coords ?shp))" using m p by simp
    then show ?thesis using e by (metis image_eqI list.set_map)
  qed
  then show ?thesis unfolding centrosymmetric_def s d sv by blast
qed

text \<open>
  For a centrosymmetric structure and an \<^verbatim>\<open>int32\<close> label array, the labels of a call that
  returns are those of the chains of non-zero cells.
\<close>

lemma label_partition:
  assumes wf: "wf_array input" and v: "validation input structure output = None"
    and dt: "out_dtype output = Int32"
    and cs: "centrosymmetric (arr_shape (the_structure input structure))
               (map (\<lambda>v. v \<noteq> 0) (arr_data (the_structure input structure)))"
    and r: "label astype sch input structure output = Some (Inr r)"
  shows "(\<forall>p<arr_size input. \<forall>q<arr_size input.
            arr_data input ! p \<noteq> 0 \<longrightarrow> arr_data input ! q \<noteq> 0 \<longrightarrow>
            (ret_labels r ! p = ret_labels r ! q)
            = ((p, q) \<in> (se_step (arr_shape input) (arr_data input)
                  (struct_vecs (arr_shape (the_structure input structure))
                     (map (\<lambda>v. v \<noteq> 0) (arr_data (the_structure input structure)))))\<^sup>*))
       \<and> (\<forall>p<arr_size input. arr_data input ! p = 0 \<longrightarrow> ret_labels r ! p = 0)"
proof (cases "arr_size input = 0")
  case True
  then show ?thesis by simp
next
  case False
  have n: "length (arr_data input) = arr_size input" using wf by (simp add: wf_array_def)
  show ?thesis
  proof (cases "arr_ndim input = 0")
    case True
    let ?m = "if hd (arr_data input) = 0 then 0 else 1 :: int"
    have "r = mk_ret output [?m] ?m"
      using label_scalar[OF v False True, of astype sch] r dt by (simp add: to_dtype_def)
    then have e: "ret_labels r = [?m]" by (auto simp: mk_ret_def)
    have d: "arr_size input = 1" "arr_data input = [hd (arr_data input)]"
      using label_scalar_data[OF wf True] by auto
    have h: "arr_data input ! 0 = hd (arr_data input)" using d(2) by (metis nth_Cons_0)
    show ?thesis using e d(1) h by auto
  next
    case nz: False
    let ?x = "arr_data input" and ?shp = "arr_shape input"
    let ?st = "the_structure input structure"
    let ?bs = "map (\<lambda>v. v \<noteq> 0) (arr_data ?st)"
    let ?out = "ret_labels r"
    note ls = label_array_spec[OF wf v False nz dt r]
    have sh: "arr_shape ?st = replicate (length ?shp) 3" using validated_shape[OF v] .
    have ld: "label_dirs ?st = compile_dirs (replicate (length ?shp) 3) ?bs"
      by (simp add: label_dirs_def sh)
    have cs': "centrosymmetric (replicate (length ?shp) 3) ?bs" using cs sh by simp
    have "prod_list ?shp \<noteq> 0" using False by (simp add: arr_size_def)
    then have "0 \<notin> set ?shp" by (simp add: prod_list_zero_iff)
    then have pos: "\<forall>s\<in>set ?shp. 0 < s" by (metis gr0I)
    have len: "length ?x = prod_list ?shp" using n by (simp add: arr_size_def)
    have r1: "1 \<le> length ?shp" using nz by (cases ?shp) (simp_all add: arr_ndim_def)
    have a: "\<forall>p<arr_size input. \<forall>q<arr_size input. ?x ! p \<noteq> 0 \<longrightarrow> ?x ! q \<noteq> 0 \<longrightarrow>
            (?out ! p = ?out ! q)
            = ((p, q) \<in> (se_step ?shp ?x (struct_vecs (arr_shape ?st) ?bs))\<^sup>*)"
    proof (intro allI impI)
      fix p q assume p: "p < arr_size input" "?x ! p \<noteq> 0" and q: "q < arr_size input" "?x ! q \<noteq> 0"
      have ap: "active ?x (int p)" using p n by (simp add: active_def)
      have "(?out ! p = ?out ! q)
          = ((int p, int q) \<in> conn (map int ?shp) (concat (label_dirs ?st))
                (length (label_dirs ?st)) (length ?shp) ?x)"
        using label_spec_same_label[OF ls] p q n by simp
      also have "\<dots> = ((p, q) \<in> (se_step ?shp ?x (struct_vecs (replicate (length ?shp) 3) ?bs))\<^sup>*)"
        unfolding ld
        using conn_chain[OF pos len r1 cs' ap, of "int q"] chain_conn[OF pos len r1 cs', of p q]
        by auto
      finally show "(?out ! p = ?out ! q)
            = ((p, q) \<in> (se_step ?shp ?x (struct_vecs (arr_shape ?st) ?bs))\<^sup>*)"
        using sh by simp
    qed
    have b: "\<forall>p<arr_size input. ?x ! p = 0 \<longrightarrow> ?out ! p = 0"
      using label_spec_cells[OF ls] n by simp
    show ?thesis using a b by blast
  qed
qed




text \<open>
  The label array has to be \<^verbatim>\<open>int32\<close> for the labels to tell the chains apart: converted to
  \<^verbatim>\<open>bool\<close> (False for 0, True for every other value), the labels of the cells 0 and 2 of
  the field \<open>[1,0,1,1,0,1]\<close> are equal, although no chain leads from cell 0 to cell 2.
\<close>

lemma partition_bool_output:
  "label (\<lambda>d v. if v = 0 then 0 else 1)
        \<lparr>sch_connect = sequential 6 12, sch_count = sequential 6 6, sch_labels = sequential 6 3\<rparr>
        \<lparr>arr_dtype = Int32, arr_shape = [6], arr_data = [1, 0, 1, 1, 0, 1]\<rparr>
        (Some \<lparr>arr_dtype = Int32, arr_shape = [3], arr_data = [1, 1, 1]\<rparr>) (Out_dtype Other_dtype)
      = Some (Inr (Ret_pair [1, 0, 1, 1, 0, 1] 3))
   \<and> ret_labels (Ret_pair [1, 0, 1, 1, 0, 1] 3) ! 0 = ret_labels (Ret_pair [1, 0, 1, 1, 0, 1] 3) ! 2
   \<and> (0, 2) \<notin> (se_step [6] [1, 0, 1, 1, 0, 1] (struct_vecs [3] (map (\<lambda>v. v \<noteq> 0) [1, 1, 1 :: int])))\<^sup>*"
proof -
  let ?inp = "\<lparr>arr_dtype = Int32, arr_shape = [6], arr_data = [1, 0, 1, 1, 0, 1]\<rparr>"
  let ?st = "Some \<lparr>arr_dtype = Int32, arr_shape = [3], arr_data = [1, 1, 1]\<rparr>"
  let ?short = "\<lparr>sch_connect = sequential 6 12, sch_count = sequential 6 6, sch_labels = sequential 6 3\<rparr>"
  have b: "label (\<lambda>d v. if v = 0 then 0 else 1) ?short ?inp ?st (Out_dtype Other_dtype)
      = Some (Inr (Ret_pair [1, 0, 1, 1, 0, 1] 3))"
    by code_simp
  have wf: "wf_array ?inp" by (simp add: wf_array_def arr_size_def)
  have v: "validation ?inp ?st Out_None = None" by code_simp
  have dt: "out_dtype Out_None = Int32" by simp
  have ts: "arr_shape (the_structure ?inp ?st) = [3]"
    "map (\<lambda>v. v \<noteq> 0) (arr_data (the_structure ?inp ?st)) = map (\<lambda>v. v \<noteq> 0) [1, 1, 1 :: int]"
    by (simp_all add: the_structure_def)
  have sv: "struct_vecs [3] (map (\<lambda>v. v \<noteq> 0) [1, 1, 1 :: int]) = [[- 1], [0], [1]]"
    by (simp add: struct_vecs_def np_where_def upt_rec)
  have cs: "centrosymmetric (arr_shape (the_structure ?inp ?st))
              (map (\<lambda>v. v \<noteq> 0) (arr_data (the_structure ?inp ?st)))"
    unfolding ts centrosymmetric_def sv by simp
  have a: "label (\<lambda>d v. v) ?short ?inp ?st Out_None = Some (Inr (Ret_pair [1, 0, 2, 2, 0, 3] 3))"
    by code_simp
  have sz: "arr_size ?inp = 6" by (simp add: arr_size_def)
  from label_partition[OF wf v dt cs a]
  have main: "\<forall>p<6. \<forall>q<6. [1, 0, 1, 1, 0, 1 :: int] ! p \<noteq> 0 \<longrightarrow> [1, 0, 1, 1, 0, 1 :: int] ! q \<noteq> 0 \<longrightarrow>
            ([1, 0, 2, 2, 0, 3 :: int] ! p = [1, 0, 2, 2, 0, 3] ! q)
            = ((p, q) \<in> (se_step [6] [1, 0, 1, 1, 0, 1]
                  (struct_vecs [3] (map (\<lambda>v. v \<noteq> 0) [1, 1, 1 :: int])))\<^sup>*)"
    unfolding ts sz by simp
  have j: "(0, 2) \<notin> (se_step [6] [1, 0, 1, 1, 0, 1] (struct_vecs [3] (map (\<lambda>v. v \<noteq> 0) [1, 1, 1 :: int])))\<^sup>*"
    using main[rule_format, of 0 2] by simp
  show ?thesis using b j by simp
qed

subsection \<open>Validation\<close>

lemma the_structure_shape [simp]:
  "arr_shape (the_structure input (Some s)) = arr_shape s"
  by (simp add: the_structure_def)

lemma the_structure_ndim [simp]:
  "arr_ndim (the_structure input (Some s)) = arr_ndim s"
  by (simp add: arr_ndim_def)

lemma label_error_iff:
  "(label astype sch input structure output = Some (Inl e))
   = (validation input structure output = Some e)"
proof (cases "validation input structure output")
  case None
  then show ?thesis using label_no_error[OF None] by simp
next
  case (Some e')
  then show ?thesis using label_error[OF Some] by auto
qed

text \<open>
  Claim C6. \<^verbatim>\<open>label\<close> makes its checks in the order of the claim, and the first that fails
  decides the error: a complex field raises \<^verbatim>\<open>TypeError\<close> (TypeMismatch); otherwise a
  structure of another rank than the field raises \<^verbatim>\<open>RuntimeError\<close> (RankMismatch);
  otherwise a structure axis that is not 3 long raises \<^verbatim>\<open>ValueError\<close> (ShapeMismatch);
  otherwise an output array of the caller of another shape than the field raises
  \<^verbatim>\<open>ValueError\<close> (ShapeMismatch). An error does not depend on the schedule of the kernel
  threads and it is the whole outcome, no label array comes with it: it is raised before
  any kernel is launched.
\<close>

theorem validation_error_contract:
  "(is_complex input \<longrightarrow> label astype sch input structure output = Some (Inl TypeError))
   \<and> (\<not> is_complex input
        \<and> arr_ndim (the_structure input structure) \<noteq> arr_ndim input
      \<longrightarrow> label astype sch input structure output = Some (Inl RuntimeError))
   \<and> (\<not> is_complex input
        \<and> arr_ndim (the_structure input structure) = arr_ndim input
        \<and> (\<exists>i\<in>set (arr_shape (the_structure input structure)). i \<noteq> 3)
      \<longrightarrow> label astype sch input structure output = Some (Inl ValueError))
   \<and> (\<not> is_complex input
        \<and> arr_ndim (the_structure input structure) = arr_ndim input
        \<and> (\<forall>i\<in>set (arr_shape (the_structure input structure)). i = 3)
        \<and> output = Out_array a \<and> arr_shape a \<noteq> arr_shape input
      \<longrightarrow> label astype sch input structure output = Some (Inl ValueError))
   \<and> (label astype sch input structure output = Some (Inl e)
      \<longrightarrow> label astype' sch' input structure output = Some (Inl e))"
proof (intro conjI impI)
  assume "is_complex input"
  then show "label astype sch input structure output = Some (Inl TypeError)"
    by (intro label_error) (simp add: validation_def)
next
  assume "\<not> is_complex input \<and> arr_ndim (the_structure input structure) \<noteq> arr_ndim input"
  then show "label astype sch input structure output = Some (Inl RuntimeError)"
    by (intro label_error) (simp add: validation_def)
next
  assume "\<not> is_complex input \<and> arr_ndim (the_structure input structure) = arr_ndim input
        \<and> (\<exists>i\<in>set (arr_shape (the_structure input structure)). i \<noteq> 3)"
  then show "label astype sch input structure output = Some (Inl ValueError)"
    by (intro label_error) (simp add: validation_def)
next
  assume "\<not> is_complex input \<and> arr_ndim (the_structure input structure) = arr_ndim input
        \<and> (\<forall>i\<in>set (arr_shape (the_structure input structure)). i = 3)
        \<and> output = Out_array a \<and> arr_shape a \<noteq> arr_shape input"
  then show "label astype sch input structure output = Some (Inl ValueError)"
    by (intro label_error) (auto simp: validation_def)
next
  assume "label astype sch input structure output = Some (Inl e)"
  then show "label astype' sch' input structure output = Some (Inl e)"
    by (simp add: label_error_iff)
qed

theorem validation_error_contract_witness:
  "is_complex \<lparr>arr_dtype = Complex64, arr_shape = [2], arr_data = [1, 1]\<rparr>
   \<and> label (\<lambda>d v. v) \<lparr>sch_connect = [], sch_count = [], sch_labels = []\<rparr>
        \<lparr>arr_dtype = Complex64, arr_shape = [2], arr_data = [1, 1]\<rparr> None Out_None
      = Some (Inl TypeError)
   \<and> label (\<lambda>d v. v) \<lparr>sch_connect = [], sch_count = [], sch_labels = []\<rparr>
        \<lparr>arr_dtype = Int32, arr_shape = [2], arr_data = [1, 1]\<rparr>
        (Some \<lparr>arr_dtype = Int32, arr_shape = [3, 3], arr_data = [1, 1, 1, 1, 1, 1, 1, 1, 1]\<rparr>) Out_None
      = Some (Inl RuntimeError)
   \<and> label (\<lambda>d v. v) \<lparr>sch_connect = [], sch_count = [], sch_labels = []\<rparr>
        \<lparr>arr_dtype = Int32, arr_shape = [2], arr_data = [1, 1]\<rparr>
        (Some \<lparr>arr_dtype = Int32, arr_shape = [2], arr_data = [1, 1]\<rparr>) Out_None
      = Some (Inl ValueError)
   \<and> label (\<lambda>d v. v) \<lparr>sch_connect = [], sch_count = [], sch_labels = []\<rparr>
        \<lparr>arr_dtype = Int32, arr_shape = [2], arr_data = [1, 1]\<rparr> None
        (Out_array \<lparr>arr_dtype = Int32, arr_shape = [3], arr_data = [0, 0, 0]\<rparr>)
      = Some (Inl ValueError)
   \<and> label (\<lambda>d v. v + 1) (sequential_schedule 2 1)
        \<lparr>arr_dtype = Int32, arr_shape = [2], arr_data = [1, 1]\<rparr> None
        (Out_array \<lparr>arr_dtype = Int32, arr_shape = [3], arr_data = [0, 0, 0]\<rparr>)
      = Some (Inl ValueError)"
proof -
  let ?e = "\<lparr>sch_connect = [], sch_count = [], sch_labels = []\<rparr>"
  let ?f = "\<lparr>arr_dtype = Int32, arr_shape = [2], arr_data = [1, 1]\<rparr>"
  let ?c = "\<lparr>arr_dtype = Complex64, arr_shape = [2], arr_data = [1, 1]\<rparr>"
  let ?s2 = "Some \<lparr>arr_dtype = Int32, arr_shape = [3, 3], arr_data = [1, 1, 1, 1, 1, 1, 1, 1, 1]\<rparr>"
  let ?s3 = "Some \<lparr>arr_dtype = Int32, arr_shape = [2], arr_data = [1, 1]\<rparr>"
  let ?o = "\<lparr>arr_dtype = Int32, arr_shape = [3], arr_data = [0, 0, 0]\<rparr>"
  have c: "is_complex ?c" "\<not> is_complex ?f" by (simp_all add: is_complex_def)
  have n: "arr_ndim ?f = 1" by (simp add: arr_ndim_def)
  have g: "arr_ndim (the_structure ?f None) = 1" "\<forall>i\<in>set (arr_shape (the_structure ?f None)). i = 3"
    by (simp_all add: the_structure_def u_generate_binary_structure_def arr_ndim_def)
  have 1: "label (\<lambda>d v. v) ?e ?c None Out_None = Some (Inl TypeError)"
    using validation_error_contract[of ?c "\<lambda>d v. v" ?e None Out_None] c by blast
  have 2: "label (\<lambda>d v. v) ?e ?f ?s2 Out_None = Some (Inl RuntimeError)"
    using validation_error_contract[of ?f "\<lambda>d v. v" ?e ?s2 Out_None] c
    by (simp add: arr_ndim_def)
  have 3: "label (\<lambda>d v. v) ?e ?f ?s3 Out_None = Some (Inl ValueError)"
    using validation_error_contract[of ?f "\<lambda>d v. v" ?e ?s3 Out_None] c
    by (simp add: arr_ndim_def)
  have 4: "label (\<lambda>d v. v) ?e ?f None (Out_array ?o) = Some (Inl ValueError)"
    using validation_error_contract[of ?f "\<lambda>d v. v" ?e None "Out_array ?o" ?o] c g n
    by simp
  have 5: "label (\<lambda>d v. v + 1) (sequential_schedule 2 1) ?f None (Out_array ?o) = Some (Inl ValueError)"
    using validation_error_contract[of ?f "\<lambda>d v. v" ?e None "Out_array ?o" ?o ValueError
        "\<lambda>d v. v + 1" "sequential_schedule 2 1"] 4 by blast
  show ?thesis using c(1) 1 2 3 4 5 by blast
qed

text \<open>
  Claim C10. \<^verbatim>\<open>label\<close> does not test the structure for centrosymmetry. For a field that is
  not complex and an output argument that passes its check, every structure \<open>s\<close> of the
  rank of the field with three cells along each axis passes the checks, whatever its
  cells; no schedule makes the call raise, and under every schedule that gives each thread
  the steps it needs the call returns a labelling. If a structure makes the call raise, its
  rank is not the rank of the field or one of its axes is not 3 long.
\<close>

theorem no_centrosymmetry_check:
  assumes wf: "wf_array input" and nc: "\<not> is_complex input"
    and oa: "\<forall>a. output = Out_array a \<longrightarrow> arr_shape a = arr_shape input"
    and rk: "arr_ndim s = arr_ndim input" and ax: "\<forall>i\<in>set (arr_shape s). i = 3"
  shows "validation input (Some s) output = None
       \<and> (\<forall>e. label astype sch input (Some s) output \<noteq> Some (Inl e))
       \<and> (fair_schedule (arr_size input) (length (label_dirs (the_structure input (Some s)))) sch
            \<longrightarrow> (\<exists>r. label astype sch input (Some s) output = Some (Inr r)))
       \<and> (\<forall>s' e. label astype sch input (Some s') output = Some (Inl e)
            \<longrightarrow> arr_ndim s' \<noteq> arr_ndim input \<or> (\<exists>i\<in>set (arr_shape s'). i \<noteq> 3))"
proof -
  have v: "validation input (Some s) output = None"
    using nc oa rk ax by (auto simp: validation_def split: out_arg.splits)
  have ne: "\<forall>e. label astype sch input (Some s) output \<noteq> Some (Inl e)"
    using label_no_error[OF v] by blast
  have fr: "fair_schedule (arr_size input) (length (label_dirs (the_structure input (Some s)))) sch
            \<longrightarrow> (\<exists>r. label astype sch input (Some s) output = Some (Inr r))"
  proof
    assume "fair_schedule (arr_size input) (length (label_dirs (the_structure input (Some s)))) sch"
    then obtain res where res: "label astype sch input (Some s) output = Some res"
      using label_completes[OF wf] by blast
    then show "\<exists>r. label astype sch input (Some s) output = Some (Inr r)"
      using ne by (cases res) auto
  qed
  have on: "\<forall>s' e. label astype sch input (Some s') output = Some (Inl e)
            \<longrightarrow> arr_ndim s' \<noteq> arr_ndim input \<or> (\<exists>i\<in>set (arr_shape s'). i \<noteq> 3)"
  proof (intro allI impI)
    fix s' e assume "label astype sch input (Some s') output = Some (Inl e)"
    then have "validation input (Some s') output = Some e" by (simp add: label_error_iff)
    then show "arr_ndim s' \<noteq> arr_ndim input \<or> (\<exists>i\<in>set (arr_shape s'). i \<noteq> 3)"
      using nc oa by (auto simp: validation_def split: if_splits out_arg.splits)
  qed
  show ?thesis using v ne fr on by blast
qed

theorem no_centrosymmetry_check_witness:
  "wf_array \<lparr>arr_dtype = Int32, arr_shape = [2], arr_data = [1, 1]\<rparr>
   \<and> \<not> is_complex \<lparr>arr_dtype = Int32, arr_shape = [2], arr_data = [1, 1]\<rparr>
   \<and> arr_ndim \<lparr>arr_dtype = Int32, arr_shape = [3], arr_data = [0, 1, 1]\<rparr>
       = arr_ndim \<lparr>arr_dtype = Int32, arr_shape = [2], arr_data = [1, 1]\<rparr>
   \<and> \<not> centrosymmetric [3] (map (\<lambda>v. v \<noteq> 0) [0, 1, 1 :: int])
   \<and> validation \<lparr>arr_dtype = Int32, arr_shape = [2], arr_data = [1, 1]\<rparr>
        (Some \<lparr>arr_dtype = Int32, arr_shape = [3], arr_data = [0, 1, 1]\<rparr>) Out_None = None
   \<and> fair_schedule (arr_size \<lparr>arr_dtype = Int32, arr_shape = [2], arr_data = [1, 1]\<rparr>)
        (length (label_dirs (the_structure \<lparr>arr_dtype = Int32, arr_shape = [2], arr_data = [1, 1]\<rparr>
           (Some \<lparr>arr_dtype = Int32, arr_shape = [3], arr_data = [0, 1, 1]\<rparr>))))
        (sequential_schedule 2 0)
   \<and> (\<exists>r. label (\<lambda>d v. v) (sequential_schedule 2 0)
        \<lparr>arr_dtype = Int32, arr_shape = [2], arr_data = [1, 1]\<rparr>
        (Some \<lparr>arr_dtype = Int32, arr_shape = [3], arr_data = [0, 1, 1]\<rparr>) Out_None = Some (Inr r))"
proof -
  let ?f = "\<lparr>arr_dtype = Int32, arr_shape = [2], arr_data = [1, 1]\<rparr>"
  let ?s = "\<lparr>arr_dtype = Int32, arr_shape = [3], arr_data = [0, 1, 1]\<rparr>"
  have wf: "wf_array ?f" by (simp add: wf_array_def arr_size_def)
  have nc: "\<not> is_complex ?f" by (simp add: is_complex_def)
  have oa: "\<forall>a. Out_None = Out_array a \<longrightarrow> arr_shape a = arr_shape ?f" by simp
  have rk: "arr_ndim ?s = arr_ndim ?f" by (simp add: arr_ndim_def)
  have ax: "\<forall>i\<in>set (arr_shape ?s). i = 3" by simp
  have sv: "struct_vecs [3] (map (\<lambda>v. v \<noteq> 0) [0, 1, 1 :: int]) = [[0], [1]]"
    by (simp add: struct_vecs_def np_where_def upt_rec)
  have ncs: "\<not> centrosymmetric [3] (map (\<lambda>v. v \<noteq> 0) [0, 1, 1 :: int])"
    unfolding centrosymmetric_def sv by simp
  have n: "arr_size ?f = 2" by (simp add: arr_size_def)
  have d: "length (label_dirs (the_structure ?f (Some ?s))) = 0" by code_simp
  have f: "fair_schedule (arr_size ?f) (length (label_dirs (the_structure ?f (Some ?s))))
             (sequential_schedule 2 0)"
    unfolding n d by (rule fair_sequential_schedule)
  from no_centrosymmetry_check[OF wf nc oa rk ax, of "\<lambda>d v. v" "sequential_schedule 2 0"] f
  have "validation ?f (Some ?s) Out_None = None"
    and "\<exists>r. label (\<lambda>d v. v) (sequential_schedule 2 0) ?f (Some ?s) Out_None = Some (Inr r)"
    by blast+
  then show ?thesis using wf nc rk ncs f by blast
qed

end
